theory Spec2Isabelle
  imports
    Main
    "HOL-Library.Word"
    "HOL-Library.Multiset"
    "HOL-Library.Char_ord"
    "HOL-Library.List_Lexorder"
    "HOL-Library.Sublist"
    "HOL-Library.AList"
begin

unbundle bit_operations_syntax

section \<open>StatStorage: a week-sharded flat-file store of (timestamp, value) samples\<close>

text \<open>
  This theory embeds \<^verbatim>\<open>statstorage.cc\<close>. The class \<^verbatim>\<open>StatStorage\<close> keeps no data in
  memory: every method works on the files of the directory \<^verbatim>\<open>d_root\<close>. The state that
  the methods pass around is therefore that directory, and a file name below is the name
  of an entry of \<^verbatim>\<open>d_root\<close> (the source prepends \<^verbatim>\<open>d_root + "/"\<close> to each of them; every
  name the code opens is free of \<^verbatim>\<open>/\<close>, so it denotes an entry of that directory).
\<close>

subsection \<open>Data model\<close>

type_synonym byte = "8 word"
type_synonym uint32 = "32 word"

text \<open>\<^verbatim>\<open>time_t\<close> and \<^verbatim>\<open>int64_t\<close>: 64 bits, read as two's complement with \<^const>\<open>sint\<close>.\<close>
type_synonym int64 = "64 word"

text \<open>
  A \<^verbatim>\<open>float\<close> is only ever copied by this code, never computed with: it is carried as
  its 32-bit IEEE-754 bit pattern.
\<close>
type_synonym float32 = "32 word"

text \<open>
  Modelled from the spec: \<^verbatim>\<open>StatStorage::Datum\<close>, declared in \<^verbatim>\<open>statstorage.hh\<close>, is the
  sample a caller sees, a timestamp of 32 unsigned bits and a single-precision value;
  the code reads the two fields as \<^verbatim>\<open>d.timestamp\<close> and \<^verbatim>\<open>d.value\<close>.
\<close>
record Datum =
  d_timestamp :: uint32
  d_value :: float32

text \<open>
  Modelled from the spec: \<^verbatim>\<open>StatStorage::Val\<close>, declared in \<^verbatim>\<open>statstorage.hh\<close>, is
  the on-disk record \<^verbatim>\<open>{timestamp: uint32, value: float32}\<close>, "comparable by timestamp
  ascending", of size \<^verbatim>\<open>sizeof(uint32) + sizeof(float32)\<close>.
\<close>
record Val =
  v_timestamp :: uint32
  v_value :: float32

definition sizeof_Val :: nat where
  "sizeof_Val = 8"

text \<open>Modelled from the spec: \<^verbatim>\<open>Val::operator<(const Val&)\<close> compares timestamps.\<close>
definition val_less :: "Val \<Rightarrow> Val \<Rightarrow> bool" where
  "val_less a b = (v_timestamp a < v_timestamp b)"

text \<open>
  Modelled from the spec: the comparison of a record with the \<^verbatim>\<open>int64_t\<close> bound that
  \<^verbatim>\<open>lower_bound\<close> is given ("the first record with timestamp >= begin"); the unsigned
  32-bit timestamp is widened to 64 bits.
\<close>
definition val_less_int :: "Val \<Rightarrow> int64 \<Rightarrow> bool" where
  "val_less_int a rhs = (uint (v_timestamp a) < sint rhs)"

datatype error =
    OpenError      \<comment> \<open>\<^verbatim>\<open>unixDie("Opening ...")\<close>\<close>
  | WriteError     \<comment> \<open>\<^verbatim>\<open>runtime_error("Failed to store datum ...")\<close>\<close>
  | ListError      \<comment> \<open>\<^verbatim>\<open>unixDie("Listing metrics ...")\<close>\<close>
  | ReadError      \<comment> \<open>\<^verbatim>\<open>unixDie("Reading from ...")\<close>\<close>
  | LengthError    \<comment> \<open>\<^verbatim>\<open>std::length_error\<close> of \<^verbatim>\<open>vector::reserve\<close>\<close>
  | NullStream     \<comment> \<open>\<^verbatim>\<open>fwrite\<close> on a null \<^verbatim>\<open>FILE*\<close>: undefined behaviour, a crash\<close>

subsection \<open>The directory \<^verbatim>\<open>d_root\<close>\<close>

text \<open>
  An entry of the directory is a regular file with its bytes, a directory (with the size
  \<^verbatim>\<open>fstat\<close> reports for it), or an entry that \<^verbatim>\<open>fopen\<close> is refused. The entries are
  kept in the order \<^verbatim>\<open>readdir\<close> returns them, \<^verbatim>\<open>.\<close> and \<^verbatim>\<open>..\<close> among them where the file
  system lists them. \<^const>\<open>map_of\<close> finds an entry by name. \<open>dir_ok\<close> says whether
  \<^verbatim>\<open>d_root\<close> is a directory that the process may use: \<^verbatim>\<open>opendir(d_root)\<close> succeeds and
  entries can be created in it. \<open>space\<close> is the number of bytes the device still takes.
\<close>
datatype node = File "byte list" | Dir nat | NoAccess

record disk =
  dir_ok :: bool
  entries :: "(string \<times> node) list"
  space :: nat

text \<open>
  The longest name of a directory entry (\<^verbatim>\<open>NAME_MAX\<close> of the file system): \<^verbatim>\<open>fopen\<close> on a
  longer one fails with \<^verbatim>\<open>ENAMETOOLONG\<close>, in every mode.
\<close>
definition name_max :: nat where
  "name_max = 255"

text \<open>\<^verbatim>\<open>std::string::c_str()\<close> handed to a C function: the C function reads up to the first NUL.\<close>
definition c_str :: "string \<Rightarrow> string" where
  "c_str s = takeWhile (\<lambda>c. c \<noteq> CHR 0x00) s"

text \<open>
  \<^verbatim>\<open>fopen(path, "a")\<close>: an existing regular file is opened as it is; a missing one is
  created empty if \<^verbatim>\<open>d_root\<close> is there and allows it; a name that is too long, a
  directory and an entry without access fail. The result is the directory after the
  call, the stream being identified by \<open>path\<close>.
\<close>
definition fopen_a :: "disk \<Rightarrow> string \<Rightarrow> disk option" where
  "fopen_a fs path =
     (if name_max < length path then None
      else
        (case map_of (entries fs) path of
           None \<Rightarrow> if dir_ok fs then Some (fs\<lparr>entries := entries fs @ [(path, File [])]\<rparr>) else None
         | Some (File bs) \<Rightarrow> Some fs
         | Some (Dir sz) \<Rightarrow> None
         | Some NoAccess \<Rightarrow> None))"

definition append_node :: "byte list \<Rightarrow> node \<Rightarrow> node" where
  "append_node bs nd = (case nd of File cs \<Rightarrow> File (cs @ bs) | Dir sz \<Rightarrow> Dir sz | NoAccess \<Rightarrow> NoAccess)"

text \<open>
  \<^verbatim>\<open>fwrite(buf, 1, n, fp)\<close> on an append stream, together with the \<^verbatim>\<open>fclose\<close> that the
  \<^verbatim>\<open>unique_ptr\<close> runs when it lets go of the stream. The stream is buffered: \<^verbatim>\<open>fwrite\<close>
  takes the \<open>n\<close> bytes into the buffer and reports all \<open>n\<close> of them. They reach the end
  of the file when the stream is closed, as many as the device takes, and the code drops
  the result of \<^verbatim>\<open>fclose\<close>: a short write is reported nowhere. The code has one stream
  open at a time and reads nothing while it is open, so the bytes are put into the file
  here at once. (The records that a batch writes to one stream are taken to fit the
  buffer of the C library.) The result is the count that \<^verbatim>\<open>fwrite\<close> reports and the
  directory after the stream is closed.
\<close>
definition fwrite_a :: "disk \<Rightarrow> string \<Rightarrow> byte list \<Rightarrow> nat \<times> disk" where
  "fwrite_a fs path bs =
     (let n = min (length bs) (space fs)
      in (length bs, fs\<lparr>entries := AList.map_entry path (append_node (take n bs)) (entries fs),
                       space := space fs - n\<rparr>))"

subsection \<open>Binary record codec\<close>

text \<open>
  \<^verbatim>\<open>fwrite(&val, 1, sizeof(val), fp)\<close> writes the object representation of a \<^verbatim>\<open>Val\<close> and
  \<^verbatim>\<open>fread\<close> reads it back: four bytes of timestamp, four bytes of value, each in the
  machine's byte order (little-endian here).
\<close>
definition bytes_of_u32 :: "uint32 \<Rightarrow> byte list" where
  "bytes_of_u32 w = [ucast w, ucast (drop_bit 8 w), ucast (drop_bit 16 w), ucast (drop_bit 24 w)]"

definition u32_of_bytes :: "byte list \<Rightarrow> uint32" where
  "u32_of_bytes bs =
     ucast (bs ! 0) OR push_bit 8 (ucast (bs ! 1)) OR push_bit 16 (ucast (bs ! 2))
       OR push_bit 24 (ucast (bs ! 3))"

definition bytes_of_Val :: "Val \<Rightarrow> byte list" where
  "bytes_of_Val v = bytes_of_u32 (v_timestamp v) @ bytes_of_u32 (v_value v)"

definition Val_of_bytes :: "byte list \<Rightarrow> Val" where
  "Val_of_bytes bs =
     \<lparr>v_timestamp = u32_of_bytes (take 4 bs), v_value = u32_of_bytes (take 4 (drop 4 bs))\<rparr>"

text \<open>\<^verbatim>\<open>fread(dst, sizeof(Val), n, fp)\<close> on a regular file that holds at least \<open>n\<close> records.\<close>
definition fread_vals :: "nat \<Rightarrow> byte list \<Rightarrow> Val list" where
  "fread_vals n bs = map (\<lambda>i. Val_of_bytes (take sizeof_Val (drop (i * sizeof_Val) bs))) [0..<n]"

subsection \<open>Name validation and shard names\<close>

text \<open>One character of the class \<^verbatim>\<open>[A-Za-z0-9_.-]\<close> (C locale).\<close>
definition name_char :: "char \<Rightarrow> bool" where
  "name_char c \<longleftrightarrow>
     (CHR ''A'' \<le> c \<and> c \<le> CHR ''Z'') \<or> (CHR ''a'' \<le> c \<and> c \<le> CHR ''z'') \<or>
     (CHR ''0'' \<le> c \<and> c \<le> CHR ''9'') \<or> c = CHR ''_'' \<or> c = CHR ''.'' \<or> c = CHR ''-''"

text \<open>
  \<^verbatim>\<open>regexec(&d_preg, s, ...) != REG_NOMATCH\<close> for the pattern \<^verbatim>\<open>^[A-Za-z0-9_.-]+$\<close>
  compiled by the constructor, on the C string \<open>s\<close>.
\<close>
definition regexec_d_preg :: "string \<Rightarrow> bool" where
  "regexec_d_preg s \<longleftrightarrow> s \<noteq> [] \<and> list_all name_char s"

definition getWeekNum :: "uint32 \<Rightarrow> uint32" where
  "getWeekNum t = t div (7 * 86400)"

definition digit_char :: "nat \<Rightarrow> char" where
  "digit_char d = char_of (48 + d)"

text \<open>\<^verbatim>\<open>std::to_string\<close> of an unsigned number: decimal, no leading zeros.\<close>
function to_string :: "nat \<Rightarrow> string" where
  "to_string n = (if n < 10 then [digit_char n] else to_string (n div 10) @ [digit_char (n mod 10)])"
  by pat_completeness auto
termination
  by (relation "measure id") auto

declare to_string.simps [simp del]

definition makeFilename :: "string \<Rightarrow> uint32 \<Rightarrow> string" where
  "makeFilename name timestamp = name @ ''.'' @ to_string (unat (getWeekNum timestamp))"

subsection \<open>Write path\<close>

text \<open>\<^verbatim>\<open>void store(const string& name, uint32_t timestamp, float value)\<close>\<close>
definition store :: "disk \<Rightarrow> string \<Rightarrow> uint32 \<Rightarrow> float32 \<Rightarrow> error option \<times> disk" where
  "store fs name timestamp val =
     (if CHR ''/'' \<in> set name then (None, fs)
      else if \<not> regexec_d_preg (c_str name) then (None, fs)
      else
        let fname = makeFilename name timestamp in
        case fopen_a fs (c_str fname) of
          None \<Rightarrow> (Some OpenError, fs)
        | Some fs1 \<Rightarrow>
            (case fwrite_a fs1 (c_str fname) (bytes_of_Val \<lparr>v_timestamp = timestamp, v_value = val\<rparr>) of
               (n, fs2) \<Rightarrow> if n \<noteq> sizeof_Val then (Some WriteError, fs2) else (None, fs2)))"

text \<open>
  The loop of \<^verbatim>\<open>void store(const string& name, const vector<Datum>& data)\<close>. Its state is
  \<^verbatim>\<open>weekno\<close>, the stream \<^verbatim>\<open>fp\<close> (\<open>None\<close> is the null pointer it starts as, \<open>Some path\<close> a
  stream appending to \<open>path\<close>) and the directory.
\<close>
fun store_loop :: "string \<Rightarrow> Datum list \<Rightarrow> uint32 \<Rightarrow> string option \<Rightarrow> disk \<Rightarrow> error option \<times> disk" where
  "store_loop name [] weekno fp fs = (None, fs)"
| "store_loop name (d # ds) weekno fp fs =
     (case (if getWeekNum (d_timestamp d) \<noteq> weekno then
              (case fopen_a fs (c_str (makeFilename name (d_timestamp d))) of
                 None \<Rightarrow> Inl OpenError
               | Some fs1 \<Rightarrow>
                   Inr (getWeekNum (d_timestamp d), Some (c_str (makeFilename name (d_timestamp d))), fs1))
            else Inr (weekno, fp, fs)) of
        Inl e \<Rightarrow> (Some e, fs)
      | Inr (weekno', fp', fs') \<Rightarrow>
          (case fp' of
             None \<Rightarrow> (Some NullStream, fs')
           | Some path \<Rightarrow>
               (case fwrite_a fs' path (bytes_of_Val \<lparr>v_timestamp = d_timestamp d, v_value = d_value d\<rparr>) of
                  (n, fs2) \<Rightarrow>
                    if n \<noteq> sizeof_Val then (Some WriteError, fs2)
                    else store_loop name ds weekno' fp' fs2)))"

text \<open>\<^verbatim>\<open>void store(const string& name, const vector<Datum>& data)\<close>\<close>
definition store_batch :: "disk \<Rightarrow> string \<Rightarrow> Datum list \<Rightarrow> error option \<times> disk" where
  "store_batch fs name data =
     (if CHR ''/'' \<in> set name then (None, fs) else store_loop name data 0 None fs)"

subsection \<open>Directory scanner\<close>

text \<open>
  The inner loop of \<^verbatim>\<open>getMetrics\<close>:
  \<^verbatim>\<open>for(p = d_name + strlen(d_name) - 1; p != d_name && *p != '.'; --p);\<close>
  with \<open>p\<close> as an index into the name. (A directory entry is never the empty name; for it
  the index starts at 0 here.)
\<close>
function last_dot :: "string \<Rightarrow> nat \<Rightarrow> nat" where
  "last_dot d_name p = (if p \<noteq> 0 \<and> d_name ! p \<noteq> CHR ''.'' then last_dot d_name (p - 1) else p)"
  by pat_completeness auto
termination
  by (relation "measure snd") auto

declare last_dot.simps [simp del]

text \<open>The body of the \<^verbatim>\<open>readdir\<close> loop of \<^verbatim>\<open>getMetrics\<close> for one entry, \<open>ret\<close> the vector so far.\<close>
definition getMetrics_entry :: "string \<Rightarrow> string list \<Rightarrow> string list" where
  "getMetrics_entry d_name ret =
     (if (case d_name of [] \<Rightarrow> True | c # cs \<Rightarrow> c \<noteq> CHR ''.'') then
        (let stripped = take (last_dot d_name (length d_name - 1)) d_name
         in if stripped \<noteq> [] then ret @ [stripped] else ret)
      else ret)"

text \<open>\<^verbatim>\<open>vector<string> getMetrics()\<close>: the names, sorted, adjacent duplicates removed.\<close>
definition getMetrics :: "disk \<Rightarrow> error + string list" where
  "getMetrics fs =
     (if \<not> dir_ok fs then Inl ListError
      else Inr (remdups_adj (sort (fold getMetrics_entry (map fst (entries fs)) []))))"

subsection \<open>Reading shards\<close>

text \<open>
  \<^verbatim>\<open>void retrieveAllFromFile(const string& fname, vector<Val>* values)\<close>: \<^verbatim>\<open>fopen\<close> fails
  on a name that is too long, with another error than \<^verbatim>\<open>ENOENT\<close>; a missing file leaves
  \<open>values\<close> as it is; a regular file appends \<^verbatim>\<open>size / sizeof(Val)\<close> records; a directory
  opens for reading but no record can be read from it.
\<close>
definition retrieveAllFromFile :: "disk \<Rightarrow> string \<Rightarrow> Val list \<Rightarrow> error + Val list" where
  "retrieveAllFromFile fs fname values =
     (if name_max < length (c_str fname) then Inl OpenError
      else
        (case map_of (entries fs) (c_str fname) of
           None \<Rightarrow> Inr values
         | Some NoAccess \<Rightarrow> Inl OpenError
         | Some (File bs) \<Rightarrow> Inr (values @ fread_vals (length bs div sizeof_Val) bs)
         | Some (Dir sz) \<Rightarrow> if 0 \<noteq> sz div sizeof_Val then Inl ReadError else Inr values))"

text \<open>The loop \<^verbatim>\<open>for(const auto& f: files) retrieveAllFromFile(d_root+"/"+f, &ret);\<close>\<close>
fun read_files :: "disk \<Rightarrow> string list \<Rightarrow> Val list \<Rightarrow> error + Val list" where
  "read_files fs [] ret = Inr ret"
| "read_files fs (f # files) ret =
     (case retrieveAllFromFile fs f ret of
        Inl e \<Rightarrow> Inl e
      | Inr ret' \<Rightarrow> read_files fs files ret')"

text \<open>
  The \<^verbatim>\<open>readdir\<close> loop of \<^verbatim>\<open>retrieveVals(name)\<close>: the vector \<^verbatim>\<open>files\<close> of the entries
  that start with \<^verbatim>\<open>name + "."\<close> or equal \<^verbatim>\<open>name\<close>, in directory order.
\<close>
definition retrieveVals_files :: "disk \<Rightarrow> string \<Rightarrow> string list" where
  "retrieveVals_files fs name =
     filter (\<lambda>d_name. prefix (name @ ''.'') d_name \<or> d_name = name) (map fst (entries fs))"

text \<open>\<^verbatim>\<open>vector<Val> retrieveVals(const string& name)\<close>\<close>
definition retrieveVals :: "disk \<Rightarrow> string \<Rightarrow> error + Val list" where
  "retrieveVals fs name =
     (if \<not> dir_ok fs then Inl ListError
      else read_files fs (retrieveVals_files fs name) [])"

text \<open>
  The statement \<^verbatim>\<open>for(uint32_t t = begin; t < end + 7*86400; t += 7*86400) body\<close> of the
  ranged \<^verbatim>\<open>retrieveVals\<close>, with \<open>lim\<close> the value of \<^verbatim>\<open>end + 7*86400\<close> and the state of the
  body passed along. All arithmetic is on 32-bit unsigned words and wraps. The loop need
  not end: \<open>None\<close> is the run that never leaves it.
\<close>
partial_function (option) for_weeks ::
  "(uint32 \<Rightarrow> 's \<Rightarrow> error + 's) \<Rightarrow> uint32 \<Rightarrow> uint32 \<Rightarrow> 's \<Rightarrow> (error + 's) option" where
  "for_weeks body t lim s =
     (if t < lim then
        (case body t s of
           Inl e \<Rightarrow> Some (Inl e)
         | Inr s' \<Rightarrow> for_weeks body (t + 7 * 86400) lim s')
      else Some (Inr s))"

declare for_weeks.simps [code]

text \<open>The timestamps \<open>t\<close> at which that loop runs its body, in order.\<close>
definition visited :: "uint32 \<Rightarrow> uint32 \<Rightarrow> (error + uint32 list) option" where
  "visited begin end = for_weeks (\<lambda>t ts. Inr (ts @ [t])) begin (end + 7 * 86400) []"

text \<open>\<^verbatim>\<open>std::is_sorted\<close> with \<^verbatim>\<open>operator<\<close>: no element is less than its predecessor.\<close>
fun is_sorted :: "Val list \<Rightarrow> bool" where
  "is_sorted [] = True"
| "is_sorted [x] = True"
| "is_sorted (x # y # zs) = (\<not> val_less y x \<and> is_sorted (y # zs))"

text \<open>
  \<^verbatim>\<open>vector<Val> retrieveVals(const string& name, uint32_t begin, uint32_t end)\<close>.
  \<^verbatim>\<open>std::sort\<close> is a parameter: the order it leaves records of equal timestamp in is
  not specified (see \<open>sorts\<close> below for what is).
\<close>
definition retrieveVals_range ::
  "(Val list \<Rightarrow> Val list) \<Rightarrow> disk \<Rightarrow> string \<Rightarrow> uint32 \<Rightarrow> uint32 \<Rightarrow> (error + Val list) option" where
  "retrieveVals_range std_sort fs name begin end =
     (if CHR ''/'' \<in> set name then Some (Inr [])
      else
        (case for_weeks (\<lambda>t values. retrieveAllFromFile fs (makeFilename name t) values)
                begin (end + 7 * 86400) [] of
           None \<Rightarrow> None
         | Some (Inl e) \<Rightarrow> Some (Inl e)
         | Some (Inr values) \<Rightarrow>
             Some (Inr (if \<not> is_sorted values then std_sort values else values))))"

text \<open>What the C++ standard asks of \<^verbatim>\<open>std::sort\<close>: a permutation, in order.\<close>
definition sorts :: "(Val list \<Rightarrow> Val list) \<Rightarrow> bool" where
  "sorts std_sort \<longleftrightarrow> (\<forall>xs. mset (std_sort xs) = mset xs \<and> is_sorted (std_sort xs))"

text \<open>
  \<^verbatim>\<open>std::lower_bound(first, last, x)\<close>, the binary search of the standard library on the
  index range \<open>[first, first + len)\<close>:
  \<^verbatim>\<open>while (len > 0) { half = len >> 1; middle = first + half;
       if (*middle < x) { first = middle + 1; len = len - half - 1; } else len = half; }\<close>
\<close>
function lower_bound_loop :: "Val list \<Rightarrow> int64 \<Rightarrow> nat \<Rightarrow> nat \<Rightarrow> nat" where
  "lower_bound_loop vs x first len =
     (if 0 < len then
        (let half = len div 2; middle = first + half
         in if val_less_int (vs ! middle) x then lower_bound_loop vs x (middle + 1) (len - half - 1)
            else lower_bound_loop vs x first half)
      else first)"
  by pat_completeness auto
termination
  by (relation "measure (\<lambda>(vs, x, first, len). len)") auto

declare lower_bound_loop.simps [simp del]

definition lower_bound :: "Val list \<Rightarrow> int64 \<Rightarrow> nat" where
  "lower_bound vs x = lower_bound_loop vs x 0 (length vs)"

definition Datum_of_Val :: "Val \<Rightarrow> Datum" where
  "Datum_of_Val v = \<lparr>d_timestamp = v_timestamp v, d_value = v_value v\<rparr>"

text \<open>\<^verbatim>\<open>vector<Datum> retrieve(const string& name)\<close>\<close>
definition retrieve :: "disk \<Rightarrow> string \<Rightarrow> error + Datum list" where
  "retrieve fs name =
     (case retrieveVals fs name of
        Inl e \<Rightarrow> Inl e
      | Inr vals \<Rightarrow> Inr (map Datum_of_Val vals))"

text \<open>
  \<^verbatim>\<open>vector<Datum> retrieve(const string& name, time_t begin, time_t end, int number)\<close>.
  The bounds are narrowed to \<^verbatim>\<open>uint32_t\<close> for \<^verbatim>\<open>retrieveVals\<close> and used at 64 bits by
  \<^verbatim>\<open>lower_bound\<close>. \<^verbatim>\<open>ret.reserve(endIter - beginIter)\<close> throws when \<^verbatim>\<open>endIter\<close> is before
  \<^verbatim>\<open>beginIter\<close>, the difference being converted to an unsigned size.
\<close>
definition retrieve_range ::
  "(Val list \<Rightarrow> Val list) \<Rightarrow> disk \<Rightarrow> string \<Rightarrow> int64 \<Rightarrow> int64 \<Rightarrow> 32 word \<Rightarrow> (error + Datum list) option" where
  "retrieve_range std_sort fs name begin end number =
     (case retrieveVals_range std_sort fs name (ucast begin) (ucast end) of
        None \<Rightarrow> None
      | Some (Inl e) \<Rightarrow> Some (Inl e)
      | Some (Inr values) \<Rightarrow>
          Some (if values = [] then Inr []
                else
                  (let beginIter = lower_bound values begin;
                       endIter = lower_bound values end
                   in if endIter < beginIter then Inl LengthError
                      else Inr (map Datum_of_Val (take (endIter - beginIter) (drop beginIter values))))))"

subsection \<open>Conditions on the directory\<close>

text \<open>\<^verbatim>\<open>retrieveAllFromFile\<close> raises no error on the entry named \<open>f\<close>.\<close>
definition readable :: "disk \<Rightarrow> string \<Rightarrow> bool" where
  "readable fs f =
     (length (c_str f) \<le> name_max \<and>
      (case map_of (entries fs) (c_str f) of
         None \<Rightarrow> True
       | Some NoAccess \<Rightarrow> False
       | Some (File bs) \<Rightarrow> True
       | Some (Dir sz) \<Rightarrow> sz div sizeof_Val = 0))"

text \<open>The records \<^verbatim>\<open>retrieveAllFromFile\<close> reads from the entry named \<open>f\<close>.\<close>
definition file_vals :: "disk \<Rightarrow> string \<Rightarrow> Val list" where
  "file_vals fs f =
     (case map_of (entries fs) (c_str f) of
        None \<Rightarrow> []
      | Some NoAccess \<Rightarrow> []
      | Some (File bs) \<Rightarrow> fread_vals (length bs div sizeof_Val) bs
      | Some (Dir sz) \<Rightarrow> [])"

text \<open>\<^verbatim>\<open>fopen(path, "a")\<close> succeeds on the entry named \<open>path\<close>.\<close>
definition appendable :: "disk \<Rightarrow> string \<Rightarrow> bool" where
  "appendable fs path =
     (length path \<le> name_max \<and>
      (case map_of (entries fs) path of
         None \<Rightarrow> dir_ok fs
       | Some NoAccess \<Rightarrow> False
       | Some (File bs) \<Rightarrow> True
       | Some (Dir sz) \<Rightarrow> False))"

text \<open>
  A directory as the file system presents it to this code when nothing else is kept in
  it: it can be used, its entries have names without NUL that are not too long, and
  every entry but \<^verbatim>\<open>.\<close> and \<^verbatim>\<open>..\<close> is a regular file.
\<close>
definition plain_dir :: "disk \<Rightarrow> bool" where
  "plain_dir fs \<longleftrightarrow>
     dir_ok fs \<and>
     (\<forall>(f, nd)\<in>set (entries fs).
        CHR 0x00 \<notin> set f \<and> length f \<le> name_max \<and>
        (f = ''.'' \<or> f = ''..'' \<or> (\<exists>bs. nd = File bs)))"

text \<open>
  The shard \<open>path\<close> is missing, or it is a regular file that holds whole records only
  (no fragment of an earlier short write at its end).
\<close>
definition shard_whole :: "disk \<Rightarrow> string \<Rightarrow> bool" where
  "shard_whole fs path =
     (case map_of (entries fs) path of
        None \<Rightarrow> True
      | Some NoAccess \<Rightarrow> False
      | Some (File bs) \<Rightarrow> sizeof_Val dvd length bs
      | Some (Dir sz) \<Rightarrow> False)"

subsection \<open>Notions used in the statements\<close>

text \<open>A loop body run over a list of timestamps, stopping at the first error.\<close>
fun run_body :: "(uint32 \<Rightarrow> 's \<Rightarrow> error + 's) \<Rightarrow> uint32 list \<Rightarrow> 's \<Rightarrow> error + 's" where
  "run_body body [] s = Inr s"
| "run_body body (t # ts) s = (case body t s of Inl e \<Rightarrow> Inl e | Inr s' \<Rightarrow> run_body body ts s')"

text \<open>The first \<open>n\<close> timestamps of the shard loop that starts at \<open>t\<close>.\<close>
definition steps :: "uint32 \<Rightarrow> nat \<Rightarrow> uint32 list" where
  "steps t n = map (\<lambda>k. t + of_nat k * 604800) [0..<n]"

text \<open>
  The number of rounds of the shard loop for the bounds \<open>b \<le> e\<close>, when nothing wraps
  around: the least \<open>n\<close> with \<open>b + n * 604800 \<ge> e + 604800\<close>.
\<close>
definition n_steps :: "uint32 \<Rightarrow> uint32 \<Rightarrow> nat" where
  "n_steps b e = (unat e - unat b + 604800 - 1) div 604800 + 1"

text \<open>The name of the shard of week \<open>k\<close>.\<close>
definition shard_name :: "string \<Rightarrow> nat \<Rightarrow> string" where
  "shard_name name k = name @ ''.'' @ to_string k"

text \<open>A 32-bit timestamp lies in one of the weeks 0 to 7101.\<close>
definition n_weeks :: nat where
  "n_weeks = 7102"

text \<open>All records of a metric: those of its shards of every week, week by week.\<close>
definition stored_vals :: "disk \<Rightarrow> string \<Rightarrow> Val list" where
  "stored_vals fs name = concat (map (\<lambda>k. file_vals fs (shard_name name k)) [0..<n_weeks])"

text \<open>The timestamp of a record lies in the half-open interval of the two bounds.\<close>
definition in_range :: "int64 \<Rightarrow> int64 \<Rightarrow> Val \<Rightarrow> bool" where
  "in_range begin end v \<longleftrightarrow> sint begin \<le> uint (v_timestamp v) \<and> uint (v_timestamp v) < sint end"

text \<open>
  Every shard of the metric is missing or a file of whole records, and its records are of
  its own week.
\<close>
definition shards_wf :: "disk \<Rightarrow> string \<Rightarrow> bool" where
  "shards_wf fs name \<longleftrightarrow>
     (\<forall>k<n_weeks. shard_whole fs (shard_name name k) \<and>
        (\<forall>v\<in>set (file_vals fs (shard_name name k)). unat (getWeekNum (v_timestamp v)) = k))"

text \<open>The record that \<^verbatim>\<open>store\<close> writes for a sample.\<close>
definition Val_of_Datum :: "Datum \<Rightarrow> Val" where
  "Val_of_Datum d = \<lparr>v_timestamp = d_timestamp d, v_value = d_value d\<rparr>"

text \<open>The records of a batch stored one by one with the single-record \<^verbatim>\<open>store\<close>.\<close>
fun store_each :: "disk \<Rightarrow> string \<Rightarrow> Datum list \<Rightarrow> error option \<times> disk" where
  "store_each fs name [] = (None, fs)"
| "store_each fs name (d # ds) =
     (case store fs name (d_timestamp d) (d_value d) of
        (None, fs') \<Rightarrow> store_each fs' name ds
      | (Some e, fs') \<Rightarrow> (Some e, fs'))"

text \<open>A sequence of single-record \<^verbatim>\<open>store\<close> calls, each with its own name.\<close>
fun store_seq :: "disk \<Rightarrow> (string \<times> Datum) list \<Rightarrow> error option \<times> disk" where
  "store_seq fs [] = (None, fs)"
| "store_seq fs ((name, d) # ws) =
     (case store fs name (d_timestamp d) (d_value d) of
        (None, fs') \<Rightarrow> store_seq fs' ws
      | (Some e, fs') \<Rightarrow> (Some e, fs'))"

section \<open>Properties\<close>

subsection \<open>The record codec\<close>

text \<open>Decoding the eight bytes of a record gives the record back.\<close>

lemma length_bytes_of_u32: "length (bytes_of_u32 w) = 4"
  by (simp add: bytes_of_u32_def)

lemma u32_roundtrip: "u32_of_bytes (bytes_of_u32 w) = w"
proof (rule bit_word_eqI)
  fix n :: nat
  assume "n < LENGTH(32)"
  then consider "n < 8" | "8 \<le> n" "n < 16" | "16 \<le> n" "n < 24" | "24 \<le> n" "n < 32"
    by fastforce
  then show "bit (u32_of_bytes (bytes_of_u32 w)) n = bit w n"
    by cases (auto simp: u32_of_bytes_def bytes_of_u32_def bit_simps)
qed

lemma length_bytes_of_Val: "length (bytes_of_Val v) = sizeof_Val"
  by (simp add: bytes_of_Val_def sizeof_Val_def length_bytes_of_u32)

lemma Val_roundtrip: "Val_of_bytes (bytes_of_Val v) = v"
  by (simp add: Val_of_bytes_def bytes_of_Val_def length_bytes_of_u32 u32_roundtrip)

lemma fread_vals_last:
  assumes "sizeof_Val dvd length bs"
  shows "fread_vals (length (bs @ bytes_of_Val v) div sizeof_Val) (bs @ bytes_of_Val v)
         = fread_vals (length bs div sizeof_Val) bs @ [v]"
proof -
  let ?F = "\<lambda>i. Val_of_bytes (take sizeof_Val (drop (i * sizeof_Val) (bs @ bytes_of_Val v)))"
  let ?G = "\<lambda>i. Val_of_bytes (take sizeof_Val (drop (i * sizeof_Val) bs))"
  from assms obtain n where n: "length bs = sizeof_Val * n" by (auto simp: dvd_def)
  have sz: "sizeof_Val > 0" by (simp add: sizeof_Val_def)
  have d: "length (bs @ bytes_of_Val v) div sizeof_Val = Suc n"
    using n sz by (simp add: length_bytes_of_Val)
  have d': "length bs div sizeof_Val = n" using n sz by simp
  have old: "?F i = ?G i" if "i < n" for i
  proof -
    from that have "Suc i \<le> n" by simp
    then have "Suc i * sizeof_Val \<le> n * sizeof_Val" by (rule mult_le_mono1)
    then have "i * sizeof_Val + sizeof_Val \<le> length bs" using n by (simp add: mult.commute)
    then show ?thesis by simp
  qed
  have new: "?F n = v"
    using n by (simp add: mult.commute length_bytes_of_Val Val_roundtrip)
  have "map ?F [0..<n] = map ?G [0..<n]"
    by (rule map_cong) (simp_all only: old atLeastLessThan_iff set_upt)
  then have "map ?F [0..<Suc n] = map ?G [0..<n] @ [v]"
    by (simp only: upt_Suc_append le0 map_append list.map new)
  then show ?thesis
    unfolding d d' fread_vals_def .
qed

subsection \<open>Names, shard names and C strings\<close>

text \<open>
  A name that matches the regular expression has no NUL in it, and neither has a decimal
  number: for a valid name \<^verbatim>\<open>c_str()\<close> changes nothing.
\<close>

lemma name_char_not_NUL: "\<not> name_char (CHR 0x00)"
  by (simp add: name_char_def less_eq_char_def)

lemma c_str_id: "CHR 0x00 \<notin> set s \<Longrightarrow> c_str s = s"
  by (auto simp: c_str_def takeWhile_eq_all_conv)

lemma regexec_no_NUL: "regexec_d_preg s \<Longrightarrow> CHR 0x00 \<notin> set s"
  using name_char_not_NUL by (auto simp: regexec_d_preg_def list_all_iff)

lemma digit_char_not_NUL: "d < 10 \<Longrightarrow> digit_char d \<noteq> CHR 0x00"
proof
  assume d: "d < 10" and "digit_char d = CHR 0x00"
  then have "of_char (char_of (48 + d)) = (of_char (CHR 0x00) :: nat)"
    by (simp add: digit_char_def)
  with d show False by simp
qed

lemma to_string_no_NUL: "CHR 0x00 \<notin> set (to_string n)"
proof (induction n rule: to_string.induct)
  case (1 n)
  show ?case
  proof (cases "n < 10")
    case True
    then show ?thesis by (subst to_string.simps) (simp add: digit_char_not_NUL [symmetric])
  next
    case False
    have "n mod 10 < 10" by simp
    then have "digit_char (n mod 10) \<noteq> CHR 0x00" by (rule digit_char_not_NUL)
    with False 1 show ?thesis by (subst to_string.simps) auto
  qed
qed

lemma c_str_makeFilename:
  "regexec_d_preg name \<Longrightarrow> c_str (makeFilename name t) = makeFilename name t"
  by (rule c_str_id) (simp add: makeFilename_def regexec_no_NUL to_string_no_NUL)

lemma prefix_makeFilename:
  "B = A \<or> prefix (A @ ''.'') B \<Longrightarrow> prefix (A @ ''.'') (makeFilename B t)"
  by (auto simp: makeFilename_def intro: prefix_prefix)

lemma makeFilename_shard: "makeFilename name t = shard_name name (unat (getWeekNum t))"
  by (simp add: makeFilename_def shard_name_def)

lemma c_str_shard_name: "regexec_d_preg name \<Longrightarrow> c_str (shard_name name k) = shard_name name k"
  by (intro c_str_id) (simp add: shard_name_def regexec_no_NUL to_string_no_NUL)

text \<open>
  Decimal numbers have no dot in them and are printed one-to-one, so a shard name
  determines the metric and the week.
\<close>

lemma of_char_digit_char: "d < 10 \<Longrightarrow> of_char (digit_char d) = 48 + d"
  by (simp add: digit_char_def)

lemma digit_char_inj: "d < 10 \<Longrightarrow> d' < 10 \<Longrightarrow> digit_char d = digit_char d' \<Longrightarrow> d = d'"
  by (metis of_char_digit_char add_left_cancel)

lemma digit_char_not_dot: "d < 10 \<Longrightarrow> digit_char d \<noteq> CHR ''.''"
proof
  assume "d < 10" and "digit_char d = CHR ''.''"
  then have "of_char (digit_char d) = (of_char (CHR ''.'') :: nat)" by simp
  with \<open>d < 10\<close> show False by (simp add: of_char_digit_char)
qed

lemma to_string_small: "n < 10 \<Longrightarrow> to_string n = [digit_char n]"
  by (subst to_string.simps) simp

lemma to_string_big: "\<not> n < 10 \<Longrightarrow> to_string n = to_string (n div 10) @ [digit_char (n mod 10)]"
  by (subst to_string.simps) simp

lemma to_string_nonempty: "to_string n \<noteq> []"
  by (cases "n < 10") (simp_all add: to_string_small to_string_big)

lemma to_string_no_dot: "CHR ''.'' \<notin> set (to_string n)"
proof (induction n rule: to_string.induct)
  case (1 n)
  show ?case
  proof (cases "n < 10")
    case True
    then show ?thesis using digit_char_not_dot [of n] by (auto simp: to_string_small)
  next
    case False
    have "digit_char (n mod 10) \<noteq> CHR ''.''" by (rule digit_char_not_dot) simp
    with False 1 show ?thesis by (auto simp: to_string_big)
  qed
qed

lemma to_string_inj: "to_string m = to_string n \<Longrightarrow> m = n"
proof (induction m arbitrary: n rule: to_string.induct)
  case (1 m)
  show ?case
  proof (cases "m < 10")
    case m: True
    show ?thesis
    proof (cases "n < 10")
      case True
      with m "1.prems" show ?thesis by (simp add: to_string_small digit_char_inj)
    next
      case False
      with m "1.prems" to_string_nonempty [of "n div 10"] show ?thesis
        by (simp add: to_string_small to_string_big)
    qed
  next
    case m: False
    show ?thesis
    proof (cases "n < 10")
      case True
      with m "1.prems" to_string_nonempty [of "m div 10"] show ?thesis
        by (simp add: to_string_small to_string_big)
    next
      case False
      with m "1.prems" have eq: "to_string (m div 10) = to_string (n div 10)"
        and d: "digit_char (m mod 10) = digit_char (n mod 10)"
        by (simp_all add: to_string_big)
      from "1.IH" [OF m eq] have "m div 10 = n div 10" .
      moreover from d have "m mod 10 = n mod 10" by (intro digit_char_inj) simp_all
      ultimately show ?thesis by (metis div_mult_mod_eq)
    qed
  qed
qed

text \<open>
  A week number has at most four digits, so a shard name is at most five characters
  longer than the name of the metric.
\<close>

lemma week_le_max: "unat (getWeekNum t) < n_weeks"
proof -
  have "unat t < 2 ^ LENGTH(32)" by (rule unsigned_less)
  then have "unat t < 2 ^ 32" by simp
  then have "unat t div 604800 \<le> (2 ^ 32 - 1) div 604800"
    by (intro div_le_mono) simp
  then show ?thesis by (simp add: getWeekNum_def unat_div n_weeks_def)
qed

lemma length_to_string: "n < 10 ^ k \<Longrightarrow> 0 < k \<Longrightarrow> length (to_string n) \<le> k"
proof (induction k arbitrary: n)
  case 0
  then show ?case by simp
next
  case (Suc k)
  show ?case
  proof (cases "n < 10")
    case True
    then show ?thesis by (simp add: to_string_small)
  next
    case False
    with Suc.prems(1) have k: "0 < k" by (cases k) simp_all
    from Suc.prems(1) have "n div 10 < 10 ^ k"
      by (simp add: less_mult_imp_div_less mult.commute)
    from Suc.IH [OF this k] False show ?thesis by (simp add: to_string_big)
  qed
qed

lemma length_shard_name: "k < n_weeks \<Longrightarrow> length (shard_name name k) \<le> length name + 5"
  using length_to_string [of k 4] by (simp add: shard_name_def n_weeks_def)

lemma length_makeFilename: "length (makeFilename name t) \<le> length name + 5"
  using length_shard_name [OF week_le_max, of name t] by (simp add: makeFilename_shard)

lemma first_sep_unique:
  "c \<notin> set xs \<Longrightarrow> c \<notin> set xs' \<Longrightarrow> xs @ c # ys = xs' @ c # ys' \<Longrightarrow> xs = xs' \<and> ys = ys'"
proof (induction xs arbitrary: xs')
  case Nil
  then show ?case by (cases xs') auto
next
  case (Cons x xs)
  then show ?case by (cases xs') auto
qed

lemma last_sep_unique:
  assumes "c \<notin> set ys" and "c \<notin> set ys'" and "xs @ c # ys = xs' @ c # ys'"
  shows "xs = xs' \<and> ys = ys'"
proof -
  from assms(3) have "rev (xs @ c # ys) = rev (xs' @ c # ys')" by simp
  then have "rev ys @ c # rev xs = rev ys' @ c # rev xs'" by simp
  moreover have "c \<notin> set (rev ys)" "c \<notin> set (rev ys')" using assms(1,2) by simp_all
  ultimately have "rev ys = rev ys' \<and> rev xs = rev xs'" by (rule first_sep_unique [rotated 2])
  then show ?thesis by simp
qed

lemma shard_name_inj: "shard_name a j = shard_name b k \<Longrightarrow> a = b \<and> j = k"
  unfolding shard_name_def
  using last_sep_unique [of "CHR ''.''" "to_string j" "to_string k" a b] to_string_no_dot to_string_inj
  by auto

subsection \<open>Reading files\<close>

lemma retrieveAllFromFile_readable:
  "readable fs f \<Longrightarrow> retrieveAllFromFile fs f acc = Inr (acc @ file_vals fs f)"
  by (auto simp: readable_def retrieveAllFromFile_def file_vals_def split: option.splits node.splits)

lemma retrieveAllFromFile_unreadable:
  "\<not> readable fs f \<Longrightarrow> \<exists>e. retrieveAllFromFile fs f acc = Inl e"
  by (auto simp: readable_def retrieveAllFromFile_def split: option.splits node.splits)

lemma read_files_readable:
  "\<forall>f\<in>set files. readable fs f \<Longrightarrow>
   read_files fs files acc = Inr (acc @ concat (map (file_vals fs) files))"
  by (induction files arbitrary: acc) (simp_all add: retrieveAllFromFile_readable)

lemma read_files_Inr:
  "read_files fs files acc = Inr vals \<Longrightarrow> \<forall>f\<in>set files. readable fs f"
proof (induction files arbitrary: acc)
  case Nil
  then show ?case by simp
next
  case (Cons f files)
  show ?case
  proof (cases "readable fs f")
    case True
    with Cons show ?thesis by (auto simp: retrieveAllFromFile_readable)
  next
    case False
    from retrieveAllFromFile_unreadable [OF this, of acc] Cons.prems show ?thesis by auto
  qed
qed

lemma retrieve_Inr_iff:
  "retrieve fs name = Inr ds \<longleftrightarrow>
     dir_ok fs \<and> (\<forall>f\<in>set (retrieveVals_files fs name). readable fs f) \<and>
     ds = map Datum_of_Val (concat (map (file_vals fs) (retrieveVals_files fs name)))"
proof (cases "dir_ok fs")
  case False
  then show ?thesis by (simp add: retrieve_def retrieveVals_def)
next
  case True
  show ?thesis
  proof (cases "\<forall>f\<in>set (retrieveVals_files fs name). readable fs f")
    case r: True
    from read_files_readable [OF r, of "[]"] True r show ?thesis
      by (auto simp: retrieve_def retrieveVals_def)
  next
    case r: False
    have "read_files fs (retrieveVals_files fs name) [] \<noteq> Inr vals" for vals
      using r read_files_Inr by blast
    with True r show ?thesis
      by (auto simp: retrieve_def retrieveVals_def split: sum.splits)
  qed
qed

lemma run_body_read:
  "\<forall>t\<in>set ts. readable fs (makeFilename name t) \<Longrightarrow>
   run_body (\<lambda>t values. retrieveAllFromFile fs (makeFilename name t) values) ts acc =
     Inr (acc @ concat (map (\<lambda>t. file_vals fs (makeFilename name t)) ts))"
  by (induction ts arbitrary: acc) (simp_all add: retrieveAllFromFile_readable)

lemma run_body_record: "run_body (\<lambda>t ts. Inr (ts @ [t])) xs acc = Inr (acc @ xs)"
  by (induction xs arbitrary: acc) simp_all

subsection \<open>Name validation on the write paths\<close>

text \<open>
  A name with \<^verbatim>\<open>/\<close> in it, or whose C string the regular expression rejects, makes the
  single-record \<^verbatim>\<open>store\<close> return at once; the batch \<^verbatim>\<open>store\<close> returns at once for a name
  with \<^verbatim>\<open>/\<close> in it.
\<close>

lemma store_invalid_name:
  "CHR ''/'' \<in> set name \<or> \<not> regexec_d_preg (c_str name) \<Longrightarrow> store fs name timestamp val = (None, fs)"
  by (auto simp: store_def)

lemma store_batch_slash:
  "CHR ''/'' \<in> set name \<Longrightarrow> store_batch fs name data = (None, fs)"
  by (simp add: store_batch_def)

text \<open>
  Claim C3: a name that contains \<^verbatim>\<open>/\<close> or does not match \<^verbatim>\<open>[A-Za-z0-9_.-]+\<close> makes both
  \<^verbatim>\<open>store\<close> operations silent no-ops. The batch overload checks only for \<^verbatim>\<open>/\<close> and never
  runs the regular expression that the single-record overload runs. On the name
  \<^verbatim>\<open>"a b"\<close>, which the expression rejects, the single-record \<^verbatim>\<open>store\<close> leaves the empty
  directory as it is, and the batch \<^verbatim>\<open>store\<close> creates the file \<^verbatim>\<open>a b.1\<close> and writes the
  record into it.
\<close>
theorem store_batch_unvalidated_name:
  "\<not> regexec_d_preg (c_str ''a b'') \<and>
   store \<lparr>dir_ok = True, entries = [], space = 64\<rparr> ''a b'' 604800 0x3F800000 =
     (None, \<lparr>dir_ok = True, entries = [], space = 64\<rparr>) \<and>
   store_batch \<lparr>dir_ok = True, entries = [], space = 64\<rparr> ''a b''
       [\<lparr>d_timestamp = 604800, d_value = 0x3F800000\<rparr>] =
     (None, \<lparr>dir_ok = True, entries = [(''a b.1'', File [128, 58, 9, 0, 0, 0, 128, 63])], space = 56\<rparr>)"
  by code_simp

text \<open>
  The single-record \<^verbatim>\<open>store\<close> matches the expression against \<^verbatim>\<open>name.c_str()\<close>: a name with
  an embedded NUL passes when the part before the NUL matches, and the record goes to the
  file named by that part.
\<close>
lemma store_nul_name:
  "\<not> list_all name_char [CHR ''a'', CHR 0x00, CHR ''!''] \<and>
   store \<lparr>dir_ok = True, entries = [], space = 64\<rparr> [CHR ''a'', CHR 0x00, CHR ''!''] 604800 0x3F800000 =
     (None, \<lparr>dir_ok = True, entries = [(''a'', File [128, 58, 9, 0, 0, 0, 128, 63])], space = 56\<rparr>)"
  by code_simp

subsection \<open>The batch \<^verbatim>\<open>store\<close>\<close>

lemma fopen_a_File:
  "map_of (entries fs) p = Some (File bs) \<Longrightarrow> length p \<le> name_max \<Longrightarrow> fopen_a fs p = Some fs"
  by (simp add: fopen_a_def)

lemma fopen_a_is_File:
  "fopen_a fs p = Some fs1 \<Longrightarrow> \<exists>bs. map_of (entries fs1) p = Some (File bs)"
  by (auto simp: fopen_a_def map_add_def split: option.splits node.splits if_splits)

lemma fopen_a_length: "fopen_a fs p = Some fs1 \<Longrightarrow> length p \<le> name_max"
  by (auto simp: fopen_a_def split: if_splits)

lemma fopen_a_appendable: "(\<exists>fs1. fopen_a fs p = Some fs1) \<longleftrightarrow> appendable fs p"
  by (auto simp: fopen_a_def appendable_def split: option.splits node.splits)

lemma fwrite_a_count: "fwrite_a fs p rec = (n, fs2) \<Longrightarrow> n = length rec"
  by (auto simp: fwrite_a_def Let_def)

lemma fwrite_a_keeps_File:
  "map_of (entries fs1) p = Some (File bs) \<Longrightarrow> fwrite_a fs1 q rec = (n, fs2) \<Longrightarrow>
   \<exists>bs'. map_of (entries fs2) p = Some (File bs')"
  by (auto simp: fwrite_a_def Let_def map_of_map_entry append_node_def)

text \<open>
  The loop of the batch \<^verbatim>\<open>store\<close> does what storing the records one by one does, with the
  same result and the same error if there is one, as long as the stream is the shard of
  \<^verbatim>\<open>weekno\<close> or, being still null, the first record is of another week than \<^verbatim>\<open>weekno\<close>.
\<close>
lemma store_loop_as_stores:
  assumes "CHR ''/'' \<notin> set name" and "regexec_d_preg name"
    and "case fp of
           None \<Rightarrow> data = [] \<or> getWeekNum (d_timestamp (hd data)) \<noteq> weekno
         | Some p \<Rightarrow> p = shard_name name (unat weekno) \<and> length p \<le> name_max \<and>
                     (\<exists>bs. map_of (entries fs) p = Some (File bs))"
  shows "store_loop name data weekno fp fs = store_each fs name data"
  using assms(3)
proof (induction data arbitrary: weekno fp fs)
  case Nil
  then show ?case by simp
next
  case (Cons d ds)
  let ?p = "makeFilename name (d_timestamp d)"
  let ?rec = "bytes_of_Val \<lparr>v_timestamp = d_timestamp d, v_value = d_value d\<rparr>"
  have c1: "c_str name = name" using assms(2) by (simp add: c_str_id regexec_no_NUL)
  have c2: "c_str ?p = ?p" using assms(2) by (rule c_str_makeFilename)
  have st: "store fs name (d_timestamp d) (d_value d) =
      (case fopen_a fs ?p of
         None \<Rightarrow> (Some OpenError, fs)
       | Some fs1 \<Rightarrow> (case fwrite_a fs1 ?p ?rec of
                       (n, fs2) \<Rightarrow> if n \<noteq> sizeof_Val then (Some WriteError, fs2) else (None, fs2)))"
    using assms(1,2) unfolding store_def Let_def c1 c2 by simp
  show ?case
  proof (cases "getWeekNum (d_timestamp d) \<noteq> weekno")
    case True
    show ?thesis
    proof (cases "fopen_a fs ?p")
      case None
      with True show ?thesis by (simp add: st c2)
    next
      case (Some fs1)
      obtain n fs2 where w: "fwrite_a fs1 ?p ?rec = (n, fs2)" by (cases "fwrite_a fs1 ?p ?rec")
      show ?thesis
      proof (cases "n \<noteq> sizeof_Val")
        case True
        with \<open>getWeekNum (d_timestamp d) \<noteq> weekno\<close> Some w show ?thesis by (simp add: st c2)
      next
        case False
        from fopen_a_is_File [OF Some] obtain bs where "map_of (entries fs1) ?p = Some (File bs)" by blast
        from fwrite_a_keeps_File [OF this w] have "\<exists>bs'. map_of (entries fs2) ?p = Some (File bs')" .
        with fopen_a_length [OF Some] have "case Some ?p of
             None \<Rightarrow> ds = [] \<or> getWeekNum (d_timestamp (hd ds)) \<noteq> getWeekNum (d_timestamp d)
           | Some p \<Rightarrow> p = shard_name name (unat (getWeekNum (d_timestamp d))) \<and> length p \<le> name_max \<and>
                       (\<exists>bs. map_of (entries fs2) p = Some (File bs))"
          by (simp add: makeFilename_shard)
        from Cons.IH [OF this] False \<open>getWeekNum (d_timestamp d) \<noteq> weekno\<close> Some w
        show ?thesis by (simp add: st c2)
      qed
    qed
  next
    case False
    then have same: "getWeekNum (d_timestamp d) = weekno" by simp
    with Cons.prems obtain bs where fp: "fp = Some ?p" and ex: "map_of (entries fs) ?p = Some (File bs)"
      and len: "length ?p \<le> name_max"
      by (cases fp) (auto simp: makeFilename_shard)
    have op: "fopen_a fs ?p = Some fs" using ex len by (rule fopen_a_File)
    obtain n fs2 where w: "fwrite_a fs ?p ?rec = (n, fs2)" by (cases "fwrite_a fs ?p ?rec")
    show ?thesis
    proof (cases "n \<noteq> sizeof_Val")
      case True
      with same fp op w show ?thesis by (simp add: st)
    next
      case False
      from fwrite_a_keeps_File [OF ex w] have "\<exists>bs'. map_of (entries fs2) ?p = Some (File bs')" .
      then have "case fp of
             None \<Rightarrow> ds = [] \<or> getWeekNum (d_timestamp (hd ds)) \<noteq> weekno
           | Some p \<Rightarrow> p = shard_name name (unat weekno) \<and> length p \<le> name_max \<and>
                       (\<exists>bs. map_of (entries fs2) p = Some (File bs))"
        using fp same len by (simp add: makeFilename_shard)
      from Cons.IH [OF this] False same fp op w
      show ?thesis by (simp add: st)
    qed
  qed
qed

text \<open>
  So for a valid name and a batch that is empty or whose first record is not of week 0,
  every record is appended to the shard of its own week, in the order of the batch. The
  device is asked to take the whole batch: then no stream is ever flushed short,
  whatever the size of its buffer.
\<close>
lemma store_batch_as_stores:
  assumes "CHR ''/'' \<notin> set name" and "regexec_d_preg name"
    and "data = [] \<or> getWeekNum (d_timestamp (hd data)) \<noteq> 0"
    and "length data * sizeof_Val \<le> space fs"
  shows "store_batch fs name data = store_each fs name data"
  using assms(1,3) store_loop_as_stores [OF assms(1,2), where fp = None and data = data and weekno = 0 and fs = fs]
  by (simp add: store_batch_def)

lemma store_each_seq: "store_each fs name ds = store_seq fs (map (Pair name) ds)"
  by (induction ds arbitrary: fs) (simp_all split: prod.splits option.splits)

text \<open>
  Claim C4: the batch \<^verbatim>\<open>store\<close> appends every record to the shard of its own week, also
  when the first record of the batch lies in week 0. \<^verbatim>\<open>weekno\<close> starts as 0 with a null
  stream, so a first record of week 0 opens no file: on the valid name \<^verbatim>\<open>"cpu"\<close> and the
  one-record batch with timestamp 0 the code writes through the null stream and no shard
  receives the record.
\<close>
theorem store_batch_week0_null_stream:
  "regexec_d_preg (c_str ''cpu'') \<and>
   getWeekNum 0 = 0 \<and>
   store_batch \<lparr>dir_ok = True, entries = [], space = 64\<rparr> ''cpu''
       [\<lparr>d_timestamp = 0, d_value = 0x3F800000\<rparr>] =
     (Some NullStream, \<lparr>dir_ok = True, entries = [], space = 64\<rparr>)"
  by code_simp

subsection \<open>Writing a record and reading it back\<close>

lemma store_valid:
  assumes "CHR ''/'' \<notin> set name" and "regexec_d_preg name"
    and "sizeof_Val \<le> space fs" and "appendable fs (makeFilename name t)"
    and "shard_whole fs (makeFilename name t)"
  shows "\<exists>fs' old. store fs name t v = (None, fs') \<and> sizeof_Val dvd length old \<and>
           file_vals fs (makeFilename name t) = fread_vals (length old div sizeof_Val) old \<and>
           map_of (entries fs') (makeFilename name t) =
             Some (File (old @ bytes_of_Val \<lparr>v_timestamp = t, v_value = v\<rparr>)) \<and>
           (\<forall>p. p \<noteq> makeFilename name t \<longrightarrow> map_of (entries fs') p = map_of (entries fs) p) \<and>
           set (map fst (entries fs')) = insert (makeFilename name t) (set (map fst (entries fs))) \<and>
           dir_ok fs' = dir_ok fs"
proof -
  let ?p = "makeFilename name t"
  let ?rec = "bytes_of_Val \<lparr>v_timestamp = t, v_value = v\<rparr>"
  have c1: "c_str name = name" using assms(2) by (simp add: c_str_id regexec_no_NUL)
  have c2: "c_str ?p = ?p" using assms(2) by (rule c_str_makeFilename)
  have len: "min (length ?rec) (space fs) = sizeof_Val"
    using assms(3) by (simp add: length_bytes_of_Val)
  have nm: "\<not> name_max < length ?p"
    using assms(4) by (simp add: appendable_def)
  show ?thesis
  proof (cases "map_of (entries fs) ?p")
    case None
    then have notin: "?p \<notin> fst ` set (entries fs)" by (simp add: map_of_eq_None_iff)
    from None assms(4) have ok: "dir_ok fs" by (simp add: appendable_def)
    let ?fs' = "fs\<lparr>entries := AList.map_entry ?p (append_node ?rec) (entries fs @ [(?p, File [])]),
                  space := space fs - sizeof_Val\<rparr>"
    have st: "store fs name t v = (None, ?fs')"
      using assms(1,2) None len nm ok
      by (simp add: store_def c1 c2 fopen_a_def fwrite_a_def Let_def length_bytes_of_Val)
    have m: "map_of (entries ?fs') = (map_of (entries fs))(?p \<mapsto> File ([] @ ?rec))"
      using None by (auto simp: map_of_map_entry map_add_def append_node_def fun_eq_iff split: option.splits)
    have k: "set (map fst (entries ?fs')) = insert ?p (set (map fst (entries fs)))"
      by (auto simp: dom_map_entry)
    have fv: "file_vals fs ?p = fread_vals (length ([] :: byte list) div sizeof_Val) []"
      using None by (simp add: file_vals_def c2 fread_vals_def)
    show ?thesis
      apply (rule exI [of _ ?fs'], rule exI [of _ "[]"])
      using st m k fv by simp
  next
    case (Some nd)
    with assms(5) obtain bs where bs: "nd = File bs" "sizeof_Val dvd length bs"
      by (auto simp: shard_whole_def split: node.splits)
    from Some have isin: "?p \<in> fst ` set (entries fs)"
      by (metis map_of_eq_None_iff option.distinct(1))
    let ?fs' = "fs\<lparr>entries := AList.map_entry ?p (append_node ?rec) (entries fs),
                  space := space fs - sizeof_Val\<rparr>"
    have st: "store fs name t v = (None, ?fs')"
      using assms(1,2) Some bs len nm
      by (simp add: store_def c1 c2 fopen_a_def fwrite_a_def Let_def length_bytes_of_Val)
    have m: "map_of (entries ?fs') = (map_of (entries fs))(?p \<mapsto> File (bs @ ?rec))"
      using Some bs by (auto simp: map_of_map_entry append_node_def fun_eq_iff)
    have k: "set (map fst (entries ?fs')) = insert ?p (set (map fst (entries fs)))"
      using isin by (auto simp: dom_map_entry)
    have fv: "file_vals fs ?p = fread_vals (length bs div sizeof_Val) bs"
      using Some bs by (simp add: file_vals_def c2)
    show ?thesis
      apply (rule exI [of _ ?fs'], rule exI [of _ bs])
      using st m k bs fv by simp
  qed
qed

text \<open>
  The common core of the round-trip properties: a record stored under the valid name
  \<open>B\<close> is read back by \<^verbatim>\<open>retrieve(A)\<close> whenever \<open>B\<close> is \<open>A\<close> or starts with \<open>A\<close> and a dot.
  The conditions on the directory say that no input/output error gets in the way: the
  device takes the eight bytes, the shard can be opened for appending and is missing or
  a file of whole records, the directory can be listed, and every entry that
  \<^verbatim>\<open>retrieve(A)\<close> selects can be read.
\<close>
lemma store_then_retrieve:
  assumes name: "CHR ''/'' \<notin> set B" "regexec_d_preg B"
    and space: "sizeof_Val \<le> space fs"
    and app: "appendable fs (makeFilename B t)"
    and whole: "shard_whole fs (makeFilename B t)"
    and ok: "dir_ok fs"
    and rd: "\<forall>f\<in>set (retrieveVals_files fs A). readable fs f"
    and sub: "B = A \<or> prefix (A @ ''.'') B"
  shows "\<exists>fs' ds. store fs B t v = (None, fs') \<and>
           (\<exists>bs. map_of (entries fs') (makeFilename B t) = Some (File bs)) \<and>
           retrieve fs' A = Inr ds \<and> \<lparr>d_timestamp = t, d_value = v\<rparr> \<in> set ds"
proof -
  let ?p = "makeFilename B t"
  let ?rec = "bytes_of_Val \<lparr>v_timestamp = t, v_value = v\<rparr>"
  from store_valid [OF name space app whole, of v]
  obtain fs' old where st: "store fs B t v = (None, fs')"
    and old: "sizeof_Val dvd length old"
    and shard: "map_of (entries fs') ?p = Some (File (old @ ?rec))"
    and others: "\<And>p. p \<noteq> ?p \<Longrightarrow> map_of (entries fs') p = map_of (entries fs) p"
    and names: "set (map fst (entries fs')) = insert ?p (set (map fst (entries fs)))"
    and dir: "dir_ok fs' = dir_ok fs"
    by blast
  have cp: "c_str ?p = ?p" using name(2) by (rule c_str_makeFilename)
  from app have len: "length ?p \<le> name_max" by (simp add: appendable_def)
  have sel: "?p \<in> set (retrieveVals_files fs' A)"
    using names prefix_makeFilename [OF sub, of t] by (simp add: retrieveVals_files_def)
  have rd': "readable fs' f" if f: "f \<in> set (retrieveVals_files fs' A)" for f
  proof (cases "c_str f = ?p")
    case True
    with shard len show ?thesis by (simp add: readable_def)
  next
    case False
    with cp have "f \<noteq> ?p" by auto
    with f names have "f \<in> set (retrieveVals_files fs A)"
      by (auto simp: retrieveVals_files_def)
    with rd have "readable fs f" by blast
    with others [OF False] show ?thesis by (simp add: readable_def)
  qed
  have "file_vals fs' ?p = fread_vals (length old div sizeof_Val) old @ [\<lparr>v_timestamp = t, v_value = v\<rparr>]"
    using shard fread_vals_last [OF old, of "\<lparr>v_timestamp = t, v_value = v\<rparr>"]
    by (simp add: file_vals_def cp)
  then have "\<lparr>v_timestamp = t, v_value = v\<rparr> \<in> set (file_vals fs' ?p)" by simp
  with sel have "\<lparr>v_timestamp = t, v_value = v\<rparr> \<in>
      set (concat (map (file_vals fs') (retrieveVals_files fs' A)))"
    by auto
  then have "Datum_of_Val \<lparr>v_timestamp = t, v_value = v\<rparr> \<in>
      set (map Datum_of_Val (concat (map (file_vals fs') (retrieveVals_files fs' A))))"
    by (simp only: set_map) (rule imageI)
  then have mem: "\<lparr>d_timestamp = t, d_value = v\<rparr> \<in>
      set (map Datum_of_Val (concat (map (file_vals fs') (retrieveVals_files fs' A))))"
    by (simp add: Datum_of_Val_def)
  have "retrieve fs' A = Inr (map Datum_of_Val (concat (map (file_vals fs') (retrieveVals_files fs' A))))"
    using ok dir rd' by (simp add: retrieve_Inr_iff)
  with st shard mem show ?thesis by blast
qed

text \<open>
  On a directory whose entries, apart from \<^verbatim>\<open>.\<close> and \<^verbatim>\<open>..\<close>, are regular files,
  \<^verbatim>\<open>retrieve(A)\<close> selects regular files only, unless \<open>A\<close> is \<^verbatim>\<open>.\<close> or \<^verbatim>\<open>..\<close> (or empty).
\<close>
lemma dot_entries_not_selected:
  assumes "A \<noteq> []" and "A \<noteq> ''.''" and "A \<noteq> ''..''"
    and "f \<in> set (retrieveVals_files fs A)"
  shows "f \<noteq> ''.'' \<and> f \<noteq> ''..''"
proof -
  from assms(4) have f: "prefix (A @ ''.'') f \<or> f = A" by (simp add: retrieveVals_files_def)
  have "\<not> prefix (A @ ''.'') ''.''"
    using assms(1) by (cases A) simp_all
  moreover have "\<not> prefix (A @ ''.'') ''..''"
  proof
    assume "prefix (A @ ''.'') ''..''"
    then have "length (A @ ''.'') \<le> length ''..''" by (rule prefix_length_le)
    then have l: "length A \<le> 1" by simp
    with assms(1) obtain c where c: "A = [c]" by (cases A) auto
    with \<open>prefix (A @ ''.'') ''..''\<close> have "c = CHR ''.''" by simp
    with c assms(2) show False by simp
  qed
  ultimately show ?thesis using f assms(2,3) by auto
qed

lemma plain_dir_selected_readable:
  assumes "plain_dir fs" and "A \<noteq> []" and "A \<noteq> ''.''" and "A \<noteq> ''..''"
  shows "\<forall>f\<in>set (retrieveVals_files fs A). readable fs f"
proof
  fix f assume f: "f \<in> set (retrieveVals_files fs A)"
  from dot_entries_not_selected [OF assms(2-4) f] have nodot: "f \<noteq> ''.''" "f \<noteq> ''..''" by simp_all
  from f have "f \<in> fst ` set (entries fs)" by (simp add: retrieveVals_files_def)
  with assms(1) have nul: "CHR 0x00 \<notin> set f" and len: "length f \<le> name_max"
    by (auto simp: plain_dir_def)
  from nul have c: "c_str f = f" by (rule c_str_id)
  show "readable fs f"
  proof (cases "map_of (entries fs) f")
    case None
    with len c show ?thesis by (simp add: readable_def)
  next
    case (Some nd)
    then have "(f, nd) \<in> set (entries fs)" by (rule map_of_SomeD)
    with assms(1) nodot obtain bs where "nd = File bs" by (auto simp: plain_dir_def)
    with Some len c show ?thesis by (simp add: readable_def)
  qed
qed

text \<open>
  So on such a directory the record stored under a valid name \<open>B\<close> is read back by
  \<^verbatim>\<open>retrieve(A)\<close> for \<open>B = A\<close> and for \<open>B\<close> that starts with \<open>A\<close> and a dot, for every \<open>A\<close>
  but \<^verbatim>\<open>.\<close> and \<^verbatim>\<open>..\<close>, when the device takes the record, the shard name is not too long,
  and the shard holds whole records.
\<close>
lemma store_then_retrieve_plain:
  assumes name: "CHR ''/'' \<notin> set B" "regexec_d_preg B"
    and A: "A \<noteq> []" "A \<noteq> ''.''" "A \<noteq> ''..''"
    and sub: "B = A \<or> prefix (A @ ''.'') B"
    and dir: "plain_dir fs"
    and space: "sizeof_Val \<le> space fs"
    and len: "length B + 5 \<le> name_max"
    and whole: "shard_whole fs (makeFilename B t)"
  shows "\<exists>fs' ds. store fs B t v = (None, fs') \<and>
           (\<exists>bs. map_of (entries fs') (makeFilename B t) = Some (File bs)) \<and>
           retrieve fs' A = Inr ds \<and> \<lparr>d_timestamp = t, d_value = v\<rparr> \<in> set ds"
proof -
  from dir have ok: "dir_ok fs" by (simp add: plain_dir_def)
  have "length (makeFilename B t) \<le> name_max"
    using length_makeFilename [of B t] len by linarith
  with whole ok have app: "appendable fs (makeFilename B t)"
    by (auto simp: appendable_def shard_whole_def split: option.splits node.splits)
  from store_then_retrieve [OF name space app whole ok plain_dir_selected_readable [OF dir A] sub]
  show ?thesis .
qed

text \<open>
  Claim C6: for every valid name, timestamp and value, \<^verbatim>\<open>store(name, timestamp, value)\<close>
  followed by \<^verbatim>\<open>retrieve(name)\<close> yields a sequence that contains the stored pair. The
  name \<^verbatim>\<open>.\<close> matches the regular expression, and it is also the name under which a
  directory lists itself. On the directory that lists nothing but \<^verbatim>\<open>.\<close> and \<^verbatim>\<open>..\<close>,
  \<^verbatim>\<open>store(".", 5, 1.0f)\<close> returns without error and creates the shard \<^verbatim>\<open>..0\<close> with the
  record in it; \<^verbatim>\<open>retrieve(".")\<close> then selects the entry \<^verbatim>\<open>.\<close> next to the shard, opens the
  directory it names, can read no record from it, and raises an error instead of
  returning a sequence.
\<close>
theorem store_retrieve_dot_name_fails:
  "CHR ''/'' \<notin> set ''.'' \<and> regexec_d_preg (c_str ''.'') \<and>
   store \<lparr>dir_ok = True, entries = [(''.'', Dir 4096), (''..'', Dir 4096)], space = 64\<rparr>
       ''.'' 5 0x3F800000 =
     (None, \<lparr>dir_ok = True,
             entries = [(''.'', Dir 4096), (''..'', Dir 4096), (''..0'', File [5, 0, 0, 0, 0, 0, 128, 63])],
             space = 56\<rparr>) \<and>
   retrieveVals_files
     \<lparr>dir_ok = True,
      entries = [(''.'', Dir 4096), (''..'', Dir 4096), (''..0'', File [5, 0, 0, 0, 0, 0, 128, 63])],
      space = 56\<rparr> ''.'' = [''.'', ''..'', ''..0''] \<and>
   retrieve
     \<lparr>dir_ok = True,
      entries = [(''.'', Dir 4096), (''..'', Dir 4096), (''..0'', File [5, 0, 0, 0, 0, 0, 128, 63])],
      space = 56\<rparr> ''.'' = Inl ReadError"
  by code_simp

text \<open>
  The same directory and the name \<^verbatim>\<open>temp\<close>, whose shard holds one record already: the
  second record goes behind it and both are read back.
\<close>
lemma store_then_retrieve_example:
  "store \<lparr>dir_ok = True,
          entries = [(''.'', Dir 4096), (''..'', Dir 4096), (''temp.0'', File [3, 0, 0, 0, 0, 0, 0, 64])],
          space = 64\<rparr> ''temp'' 5 0x3F800000 =
     (None, \<lparr>dir_ok = True,
             entries = [(''.'', Dir 4096), (''..'', Dir 4096),
                        (''temp.0'', File [3, 0, 0, 0, 0, 0, 0, 64, 5, 0, 0, 0, 0, 0, 128, 63])],
             space = 56\<rparr>) \<and>
   retrieve
     \<lparr>dir_ok = True,
      entries = [(''.'', Dir 4096), (''..'', Dir 4096),
                 (''temp.0'', File [3, 0, 0, 0, 0, 0, 0, 64, 5, 0, 0, 0, 0, 0, 128, 63])],
      space = 56\<rparr> ''temp'' =
     Inr [\<lparr>d_timestamp = 3, d_value = 0x40000000\<rparr>, \<lparr>d_timestamp = 5, d_value = 0x3F800000\<rparr>]"
  by code_simp

text \<open>
  The conditions of the general statement are needed. A device that takes three bytes
  only: \<^verbatim>\<open>store\<close> returns without error all the same, the short write being reported
  nowhere; the shard is left with a fragment and \<^verbatim>\<open>retrieve\<close> returns no record.
\<close>
lemma store_short_write:
  "store \<lparr>dir_ok = True, entries = [], space = 3\<rparr> ''temp'' 5 0x3F800000 =
     (None, \<lparr>dir_ok = True, entries = [(''temp.0'', File [5, 0, 0])], space = 0\<rparr>) \<and>
   retrieve \<lparr>dir_ok = True, entries = [(''temp.0'', File [5, 0, 0])], space = 0\<rparr> ''temp'' = Inr []"
  by code_simp

text \<open>
  After a short write has left three bytes at the end of the shard, the next record is
  appended behind them and is read back shifted.
\<close>
lemma store_after_fragment:
  "store \<lparr>dir_ok = True, entries = [(''temp.0'', File [1, 2, 3])], space = 64\<rparr> ''temp'' 5 0x3F800000 =
     (None, \<lparr>dir_ok = True, entries = [(''temp.0'', File [1, 2, 3, 5, 0, 0, 0, 0, 0, 128, 63])], space = 56\<rparr>) \<and>
   retrieve \<lparr>dir_ok = True, entries = [(''temp.0'', File [1, 2, 3, 5, 0, 0, 0, 0, 0, 128, 63])], space = 56\<rparr>
     ''temp'' = Inr [\<lparr>d_timestamp = 0x05030201, d_value = 0\<rparr>]"
  by code_simp

text \<open>
  A directory that is missing or does not allow the creation of entries, and a valid
  name of 254 characters, whose shard name is too long: \<^verbatim>\<open>fopen\<close> fails and \<^verbatim>\<open>store\<close>
  raises the error.
\<close>
lemma store_open_fails:
  "store \<lparr>dir_ok = False, entries = [], space = 64\<rparr> ''temp'' 5 0x3F800000 =
     (Some OpenError, \<lparr>dir_ok = False, entries = [], space = 64\<rparr>) \<and>
   regexec_d_preg (c_str (replicate 254 CHR ''a'')) \<and>
   store \<lparr>dir_ok = True, entries = [], space = 64\<rparr> (replicate 254 CHR ''a'') 5 0x3F800000 =
     (Some OpenError, \<lparr>dir_ok = True, entries = [], space = 64\<rparr>)"
  by code_simp

subsection \<open>Dotted names\<close>

lemma retrieveVals_files_sub:
  "set (retrieveVals_files fs (A @ ''.'' @ rest)) \<subseteq> set (retrieveVals_files fs A)"
  by (auto simp: retrieveVals_files_def intro: prefix_order.trans [of "A @ ''.''" "A @ ''.'' @ rest @ ''.''"])

text \<open>
  For \<open>B = A.rest\<close>: where \<^verbatim>\<open>retrieve(A)\<close> returns, \<^verbatim>\<open>retrieve(B)\<close> returns as well, and
  every record it returns is among those of \<^verbatim>\<open>retrieve(A)\<close>.
\<close>
lemma retrieve_dotted_subset:
  assumes B: "B = A @ ''.'' @ rest" and before: "retrieve fs A = Inr dsA"
  shows "\<exists>dsB. retrieve fs B = Inr dsB \<and> set dsB \<subseteq> set dsA"
proof -
  have sub: "set (retrieveVals_files fs B) \<subseteq> set (retrieveVals_files fs A)"
    unfolding B by (rule retrieveVals_files_sub)
  from before have ok: "dir_ok fs" and rd: "\<forall>f\<in>set (retrieveVals_files fs A). readable fs f"
    and dsA: "dsA = map Datum_of_Val (concat (map (file_vals fs) (retrieveVals_files fs A)))"
    by (simp_all add: retrieve_Inr_iff)
  let ?dsB = "map Datum_of_Val (concat (map (file_vals fs) (retrieveVals_files fs B)))"
  have "retrieve fs B = Inr ?dsB"
    using ok rd sub by (auto simp: retrieve_Inr_iff)
  moreover have "set ?dsB \<subseteq> set dsA"
    using sub unfolding dsA by auto
  ultimately show ?thesis by blast
qed

text \<open>
  Claim C9: for every two valid names \<open>A\<close> and \<open>B\<close> where \<open>B\<close> is \<open>A\<close> followed by a dot
  and a suffix, every record stored under \<open>B\<close> is included in the result of
  \<^verbatim>\<open>retrieve(A)\<close>. The names \<^verbatim>\<open>.\<close> and \<^verbatim>\<open>..a\<close> are valid and the second is the first
  followed by a dot and \<^verbatim>\<open>a\<close>. On the directory that lists nothing but \<^verbatim>\<open>.\<close> and \<^verbatim>\<open>..\<close>,
  \<^verbatim>\<open>store("..a", 5, 1.0f)\<close> writes the record to the shard \<^verbatim>\<open>..a.0\<close> and \<^verbatim>\<open>retrieve("..a")\<close>
  returns it; \<^verbatim>\<open>retrieve(".")\<close> selects the entry \<^verbatim>\<open>.\<close> before the shard and raises an
  error on reading it: it returns no result that could include the record.
\<close>
theorem retrieve_dot_misses_dotted_metric:
  "''..a'' = ''.'' @ ''.'' @ ''a'' \<and>
   regexec_d_preg (c_str ''.'') \<and> regexec_d_preg (c_str ''..a'') \<and>
   store \<lparr>dir_ok = True, entries = [(''.'', Dir 4096), (''..'', Dir 4096)], space = 64\<rparr>
       ''..a'' 5 0x3F800000 =
     (None, \<lparr>dir_ok = True,
             entries = [(''.'', Dir 4096), (''..'', Dir 4096), (''..a.0'', File [5, 0, 0, 0, 0, 0, 128, 63])],
             space = 56\<rparr>) \<and>
   retrieve
     \<lparr>dir_ok = True,
      entries = [(''.'', Dir 4096), (''..'', Dir 4096), (''..a.0'', File [5, 0, 0, 0, 0, 0, 128, 63])],
      space = 56\<rparr> ''..a'' = Inr [\<lparr>d_timestamp = 5, d_value = 0x3F800000\<rparr>] \<and>
   retrieve
     \<lparr>dir_ok = True,
      entries = [(''.'', Dir 4096), (''..'', Dir 4096), (''..a.0'', File [5, 0, 0, 0, 0, 0, 128, 63])],
      space = 56\<rparr> ''.'' = Inl ReadError"
  by code_simp

text \<open>
  The metrics \<^verbatim>\<open>cpu\<close> and \<^verbatim>\<open>cpu.user\<close> on the same kind of directory: a sample of the
  second is read back under the first, next to the sample of the first.
\<close>
lemma retrieve_dotted_example:
  "store \<lparr>dir_ok = True,
          entries = [(''.'', Dir 4096), (''..'', Dir 4096), (''cpu.0'', File [3, 0, 0, 0, 0, 0, 0, 64])],
          space = 64\<rparr> ''cpu.user'' 5 0x3F800000 =
     (None, \<lparr>dir_ok = True,
             entries = [(''.'', Dir 4096), (''..'', Dir 4096), (''cpu.0'', File [3, 0, 0, 0, 0, 0, 0, 64]),
                        (''cpu.user.0'', File [5, 0, 0, 0, 0, 0, 128, 63])],
             space = 56\<rparr>) \<and>
   retrieve
     \<lparr>dir_ok = True,
      entries = [(''.'', Dir 4096), (''..'', Dir 4096), (''cpu.0'', File [3, 0, 0, 0, 0, 0, 0, 64]),
                 (''cpu.user.0'', File [5, 0, 0, 0, 0, 0, 128, 63])],
      space = 56\<rparr> ''cpu'' =
     Inr [\<lparr>d_timestamp = 3, d_value = 0x40000000\<rparr>, \<lparr>d_timestamp = 5, d_value = 0x3F800000\<rparr>] \<and>
   retrieve
     \<lparr>dir_ok = True,
      entries = [(''.'', Dir 4096), (''..'', Dir 4096), (''cpu.0'', File [3, 0, 0, 0, 0, 0, 0, 64]),
                 (''cpu.user.0'', File [5, 0, 0, 0, 0, 0, 128, 63])],
      space = 56\<rparr> ''cpu.user'' = Inr [\<lparr>d_timestamp = 5, d_value = 0x3F800000\<rparr>]"
  by code_simp

subsection \<open>Hidden names\<close>

text \<open>Every name that \<^verbatim>\<open>getMetrics\<close> returns is non-empty and does not begin with a dot.\<close>

lemma getMetrics_entry_set:
  "set (getMetrics_entry d ret) \<subseteq> set ret \<union> {m. m \<noteq> [] \<and> hd m \<noteq> CHR ''.''}"
  by (cases d) (auto simp: getMetrics_entry_def Let_def take_Cons')

lemma fold_getMetrics_entry_set:
  "set (fold getMetrics_entry ds ret) \<subseteq> set ret \<union> {m. m \<noteq> [] \<and> hd m \<noteq> CHR ''.''}"
proof (induction ds arbitrary: ret)
  case Nil
  then show ?case by simp
next
  case (Cons d ds)
  from Cons.IH [of "getMetrics_entry d ret"] getMetrics_entry_set [of d ret]
  show ?case by auto
qed

lemma getMetrics_no_hidden:
  assumes "getMetrics fs = Inr ms" and "m \<in> set ms"
  shows "m \<noteq> [] \<and> hd m \<noteq> CHR ''.''"
proof -
  from assms have "m \<in> set (fold getMetrics_entry (map fst (entries fs)) [])"
    by (auto simp: getMetrics_def split: if_splits)
  with fold_getMetrics_entry_set [of "map fst (entries fs)" "[]"] show ?thesis by auto
qed

text \<open>
  Claim C10: for every name that passes validation but begins with a dot, \<^verbatim>\<open>store\<close>
  creates a shard file and \<^verbatim>\<open>retrieve(name)\<close> returns the stored records, yet
  \<^verbatim>\<open>getMetrics\<close> never lists the name. The name \<^verbatim>\<open>..\<close> passes validation and begins with
  a dot; it is also the name under which a directory lists its parent. On the directory
  that lists nothing but \<^verbatim>\<open>.\<close> and \<^verbatim>\<open>..\<close>, \<^verbatim>\<open>store("..", 5, 1.0f)\<close> creates the shard \<^verbatim>\<open>...0\<close>
  and \<^verbatim>\<open>getMetrics\<close> lists nothing, as the claim says; but \<^verbatim>\<open>retrieve("..")\<close> selects the
  entry \<^verbatim>\<open>..\<close> next to the shard and raises an error on reading it, instead of returning
  the stored record.
\<close>
theorem hidden_dot_dot_retrieve_fails:
  "CHR ''/'' \<notin> set ''..'' \<and> regexec_d_preg (c_str ''..'') \<and> hd ''..'' = CHR ''.'' \<and>
   store \<lparr>dir_ok = True, entries = [(''.'', Dir 4096), (''..'', Dir 4096)], space = 64\<rparr>
       ''..'' 5 0x3F800000 =
     (None, \<lparr>dir_ok = True,
             entries = [(''.'', Dir 4096), (''..'', Dir 4096), (''...0'', File [5, 0, 0, 0, 0, 0, 128, 63])],
             space = 56\<rparr>) \<and>
   getMetrics
     \<lparr>dir_ok = True,
      entries = [(''.'', Dir 4096), (''..'', Dir 4096), (''...0'', File [5, 0, 0, 0, 0, 0, 128, 63])],
      space = 56\<rparr> = Inr [] \<and>
   retrieveVals_files
     \<lparr>dir_ok = True,
      entries = [(''.'', Dir 4096), (''..'', Dir 4096), (''...0'', File [5, 0, 0, 0, 0, 0, 128, 63])],
      space = 56\<rparr> ''..'' = [''..'', ''...0''] \<and>
   retrieve
     \<lparr>dir_ok = True,
      entries = [(''.'', Dir 4096), (''..'', Dir 4096), (''...0'', File [5, 0, 0, 0, 0, 0, 128, 63])],
      space = 56\<rparr> ''..'' = Inl ReadError"
  by code_simp

text \<open>
  For every other valid name that begins with a dot the claim holds on a directory
  whose entries, apart from \<^verbatim>\<open>.\<close> and \<^verbatim>\<open>..\<close>, are regular files: \<^verbatim>\<open>store\<close> creates the shard
  file, \<^verbatim>\<open>retrieve(name)\<close> returns the stored record, \<^verbatim>\<open>getMetrics\<close> returns a list after
  the write, and on no directory at all does that list include the name.
\<close>
lemma hidden_metric:
  assumes name: "CHR ''/'' \<notin> set name" "regexec_d_preg name"
    and dot: "hd name = CHR ''.''"
    and nodir: "name \<noteq> ''.''" "name \<noteq> ''..''"
    and dir: "plain_dir fs"
    and space: "sizeof_Val \<le> space fs"
    and len: "length name + 5 \<le> name_max"
    and whole: "shard_whole fs (makeFilename name timestamp)"
  shows "(\<exists>fs' ds ms. store fs name timestamp val = (None, fs') \<and>
            (\<exists>bs. map_of (entries fs') (makeFilename name timestamp) = Some (File bs)) \<and>
            retrieve fs' name = Inr ds \<and> \<lparr>d_timestamp = timestamp, d_value = val\<rparr> \<in> set ds \<and>
            getMetrics fs' = Inr ms) \<and>
         (\<forall>fs2 ms. getMetrics fs2 = Inr ms \<longrightarrow> name \<notin> set ms)"
proof
  from name(2) have ne: "name \<noteq> []" by (auto simp: regexec_d_preg_def)
  from store_then_retrieve_plain [OF name ne nodir _ dir space len whole, of val]
  obtain fs' ds where st: "store fs name timestamp val = (None, fs')"
    and shardfile: "\<exists>bs. map_of (entries fs') (makeFilename name timestamp) = Some (File bs)"
    and rt: "retrieve fs' name = Inr ds" "\<lparr>d_timestamp = timestamp, d_value = val\<rparr> \<in> set ds"
    by blast
  from rt(1) have "dir_ok fs'" by (simp add: retrieve_Inr_iff)
  then obtain ms where ms: "getMetrics fs' = Inr ms" by (simp add: getMetrics_def)
  with st shardfile rt
  show "\<exists>fs' ds ms. store fs name timestamp val = (None, fs') \<and>
            (\<exists>bs. map_of (entries fs') (makeFilename name timestamp) = Some (File bs)) \<and>
            retrieve fs' name = Inr ds \<and> \<lparr>d_timestamp = timestamp, d_value = val\<rparr> \<in> set ds \<and>
            getMetrics fs' = Inr ms"
    by blast
next
  show "\<forall>fs2 ms. getMetrics fs2 = Inr ms \<longrightarrow> name \<notin> set ms"
    using getMetrics_no_hidden dot by blast
qed

text \<open>
  The metric \<^verbatim>\<open>.hidden\<close> next to the metric \<^verbatim>\<open>cpu\<close>: its sample is stored and read back, and
  \<^verbatim>\<open>getMetrics\<close> lists \<^verbatim>\<open>cpu\<close> alone.
\<close>
lemma hidden_metric_example:
  "store \<lparr>dir_ok = True,
          entries = [(''.'', Dir 4096), (''..'', Dir 4096), (''cpu.0'', File [3, 0, 0, 0, 0, 0, 0, 64])],
          space = 64\<rparr> ''.hidden'' 5 0x3F800000 =
     (None, \<lparr>dir_ok = True,
             entries = [(''.'', Dir 4096), (''..'', Dir 4096), (''cpu.0'', File [3, 0, 0, 0, 0, 0, 0, 64]),
                        (''.hidden.0'', File [5, 0, 0, 0, 0, 0, 128, 63])],
             space = 56\<rparr>) \<and>
   retrieve
     \<lparr>dir_ok = True,
      entries = [(''.'', Dir 4096), (''..'', Dir 4096), (''cpu.0'', File [3, 0, 0, 0, 0, 0, 0, 64]),
                 (''.hidden.0'', File [5, 0, 0, 0, 0, 0, 128, 63])],
      space = 56\<rparr> ''.hidden'' = Inr [\<lparr>d_timestamp = 5, d_value = 0x3F800000\<rparr>] \<and>
   getMetrics
     \<lparr>dir_ok = True,
      entries = [(''.'', Dir 4096), (''..'', Dir 4096), (''cpu.0'', File [3, 0, 0, 0, 0, 0, 0, 64]),
                 (''.hidden.0'', File [5, 0, 0, 0, 0, 0, 128, 63])],
      space = 56\<rparr> = Inr [''cpu'']"
  by code_simp

subsection \<open>Name validation on the ranged read path\<close>

text \<open>
  Claim C7, as stated: for every name that contains \<^verbatim>\<open>/\<close> or does not match
  \<^verbatim>\<open>[A-Za-z0-9_.-]+\<close> the ranged \<^verbatim>\<open>retrieve\<close> returns the empty sequence on every
  directory. The ranged \<^verbatim>\<open>retrieveVals\<close> guards against \<^verbatim>\<open>/\<close> only: the name \<^verbatim>\<open>"a b"\<close>
  fails the expression, the batch \<^verbatim>\<open>store\<close> writes a record under it, and the ranged
  \<^verbatim>\<open>retrieve\<close> returns that record.
\<close>
theorem retrieve_range_invalid_name_reads:
  "\<not> regexec_d_preg (c_str ''a b'') \<and>
   store_batch \<lparr>dir_ok = True, entries = [], space = 64\<rparr> ''a b''
       [\<lparr>d_timestamp = 604805, d_value = 0x3F800000\<rparr>] =
     (None, \<lparr>dir_ok = True, entries = [(''a b.1'', File [133, 58, 9, 0, 0, 0, 128, 63])], space = 56\<rparr>) \<and>
   retrieve_range (sort_key v_timestamp)
     \<lparr>dir_ok = True, entries = [(''a b.1'', File [133, 58, 9, 0, 0, 0, 128, 63])], space = 56\<rparr>
     ''a b'' 604800 604900 10 = Some (Inr [\<lparr>d_timestamp = 604805, d_value = 0x3F800000\<rparr>])"
  by code_simp

text \<open>
  Claim C7, amended: for every name that contains \<^verbatim>\<open>/\<close> the ranged \<^verbatim>\<open>retrieve\<close> returns
  the empty sequence, for all bounds, every directory and every sort routine, without
  an error and without entering the shard loop.
\<close>
theorem retrieve_range_slash:
  "CHR ''/'' \<in> set name \<Longrightarrow> retrieve_range std_sort fs name begin end number = Some (Inr [])"
  by (simp add: retrieve_range_def retrieveVals_range_def)

text \<open>A name with \<^verbatim>\<open>/\<close> in it, on a directory that holds a shard of another metric.\<close>
theorem retrieve_range_slash_witness:
  "CHR ''/'' \<in> set ''../etc'' \<and>
   retrieve_range (sort_key v_timestamp)
     \<lparr>dir_ok = True, entries = [(''cpu.0'', File [5, 0, 0, 0, 0, 0, 128, 63])], space = 56\<rparr>
     ''../etc'' 0 10 10 = Some (Inr [])"
  using retrieve_range_slash [of "''../etc''" "sort_key v_timestamp"
     "\<lparr>dir_ok = True, entries = [(''cpu.0'', File [5, 0, 0, 0, 0, 0, 128, 63])], space = 56\<rparr>" 0 10 10]
  by simp

subsection \<open>Order of the ranged result\<close>

lemma is_sorted_iff: "is_sorted xs \<longleftrightarrow> sorted (map v_timestamp xs)"
proof (induction xs rule: is_sorted.induct)
  case (3 x y zs)
  then show ?case
    by (simp add: val_less_def not_less sorted2 del: sorted_wrt.simps(2))
qed simp_all

lemma retrieveVals_range_sorted:
  assumes "sorts std_sort"
    and "retrieveVals_range std_sort fs name begin end = Some (Inr vs)"
  shows "sorted (map v_timestamp vs)"
  using assms
  by (auto simp: retrieveVals_range_def sorts_def is_sorted_iff
      split: if_splits option.splits sum.splits)

lemma d_timestamp_Datum_of_Val: "d_timestamp \<circ> Datum_of_Val = v_timestamp"
  by (simp add: fun_eq_iff Datum_of_Val_def)

lemma sorted_slice: "sorted (map f xs) \<Longrightarrow> sorted (map f (take k (drop i xs)))"
  by (simp add: take_map [symmetric] drop_map [symmetric])

text \<open>
  Claim C2: whatever the directory holds, in whatever order it was written, a sequence
  that the ranged \<^verbatim>\<open>retrieve\<close> returns is in ascending order of timestamp. \<^verbatim>\<open>std::sort\<close>
  is any routine that meets the standard's contract.
\<close>
theorem retrieve_range_sorted:
  assumes "sorts std_sort"
    and "retrieve_range std_sort fs name begin end number = Some (Inr ds)"
  shows "sorted (map d_timestamp ds)"
proof (cases "retrieveVals_range std_sort fs name (ucast begin) (ucast end)")
  case None
  with assms(2) show ?thesis by (simp add: retrieve_range_def)
next
  case (Some r)
  show ?thesis
  proof (cases r)
    case (Inl e)
    with Some assms(2) show ?thesis by (simp add: retrieve_range_def)
  next
    case (Inr vs)
    with Some assms(1) have "sorted (map v_timestamp vs)"
      by (simp add: retrieveVals_range_sorted)
    then have "sorted (map v_timestamp (take k (drop i vs)))" for k i
      by (rule sorted_slice)
    with Some Inr assms(2) show ?thesis
      by (auto simp: retrieve_range_def Let_def d_timestamp_Datum_of_Val split: if_splits)
  qed
qed

text \<open>
  Four writes that span three weeks, out of chronological order both across the weeks
  and inside week 0; the ranged \<^verbatim>\<open>retrieve\<close> returns them in order.
\<close>
theorem retrieve_range_sorted_witness:
  "sorts (sort_key v_timestamp) \<and>
   retrieve_range (sort_key v_timestamp)
     (snd (store (snd (store (snd (store (snd (store
        \<lparr>dir_ok = True, entries = [], space = 64\<rparr>
        ''m'' 1209605 3)) ''m'' 10 1)) ''m'' 604801 2)) ''m'' 5 0))
     ''m'' 0 2000000 10 =
     Some (Inr [\<lparr>d_timestamp = 5, d_value = 0\<rparr>, \<lparr>d_timestamp = 10, d_value = 1\<rparr>,
                \<lparr>d_timestamp = 604801, d_value = 2\<rparr>, \<lparr>d_timestamp = 1209605, d_value = 3\<rparr>]) \<and>
   sorted (map d_timestamp
     [\<lparr>d_timestamp = 5, d_value = 0\<rparr>, \<lparr>d_timestamp = 10, d_value = 1\<rparr>,
      \<lparr>d_timestamp = 604801, d_value = 2\<rparr>, \<lparr>d_timestamp = 1209605, d_value = 3\<rparr>])"
proof -
  have s: "sorts (sort_key v_timestamp)"
    by (simp add: sorts_def is_sorted_iff)
  have r: "retrieve_range (sort_key v_timestamp)
     (snd (store (snd (store (snd (store (snd (store
        \<lparr>dir_ok = True, entries = [], space = 64\<rparr>
        ''m'' 1209605 3)) ''m'' 10 1)) ''m'' 604801 2)) ''m'' 5 0))
     ''m'' 0 2000000 10 =
     Some (Inr [\<lparr>d_timestamp = 5, d_value = 0\<rparr>, \<lparr>d_timestamp = 10, d_value = 1\<rparr>,
                \<lparr>d_timestamp = 604801, d_value = 2\<rparr>, \<lparr>d_timestamp = 1209605, d_value = 3\<rparr>])"
    by code_simp
  from retrieve_range_sorted [OF s r] s r show ?thesis by blast
qed

subsection \<open>The shard loop\<close>

text \<open>
  If the loop condition holds for the first \<open>n\<close> timestamps and fails for the next one,
  the loop runs its body on exactly these \<open>n\<close> timestamps and ends.
\<close>

lemma steps_Suc: "steps t (Suc n) = t # steps (t + 604800) n"
proof -
  have "[0..<Suc n] = 0 # map Suc [0..<n]"
    by (simp add: upt_conv_Cons map_Suc_upt del: upt_Suc)
  then show ?thesis
    by (simp add: steps_def comp_def algebra_simps del: upt_Suc)
qed

lemma for_weeks_steps:
  assumes "\<forall>k<n. t + of_nat k * 604800 < lim"
    and "\<not> t + of_nat n * 604800 < lim"
  shows "for_weeks body t lim s = Some (run_body body (steps t n) s)"
  using assms
proof (induction n arbitrary: t s)
  case 0
  then show ?case by (subst for_weeks.simps) (simp add: steps_def)
next
  case (Suc n)
  from Suc.prems(1) have t: "t < lim" by force
  have a: "\<forall>k<n. (t + 604800) + of_nat k * 604800 < lim"
  proof (intro allI impI)
    fix k assume "k < n"
    then have "Suc k < Suc n" by simp
    with Suc.prems(1) have "t + of_nat (Suc k) * 604800 < lim" by blast
    then show "(t + 604800) + of_nat k * 604800 < lim" by (simp add: algebra_simps)
  qed
  have b: "\<not> (t + 604800) + of_nat n * 604800 < lim"
    using Suc.prems(2) by (simp add: algebra_simps)
  show ?case
  proof (cases "body t s")
    case (Inl e)
    with t show ?thesis by (subst for_weeks.simps) (simp add: steps_Suc)
  next
    case (Inr s')
    with t Suc.IH [OF a b, of s'] show ?thesis
      by (subst for_weeks.simps) (simp add: steps_Suc)
  qed
qed

lemma unat_step:
  "unat b + k * 604800 < 2 ^ 32 \<Longrightarrow> unat (b + of_nat k * 604800 :: uint32) = unat b + k * 604800"
  by (simp add: unat_word_ariths unat_of_nat mod_simps)

lemma ceil_bounds:
  fixes d W :: nat
  assumes "0 < W"
  shows "((d + W - 1) div W) * W < d + W" and "d \<le> ((d + W - 1) div W) * W"
proof -
  have "((d + W - 1) div W) * W \<le> d + W - 1" by simp
  with assms show "((d + W - 1) div W) * W < d + W" by linarith
  have "d + W - 1 < W + ((d + W - 1) div W) * W"
    using assms by (rule dividend_less_div_times)
  then show "d \<le> ((d + W - 1) div W) * W" by linarith
qed

text \<open>
  For \<open>b \<le> e\<close> with \<open>e + 2 * 604800 \<le> 2\<^sup>3\<^sup>2\<close> neither the bound \<^verbatim>\<open>end + 7*86400\<close> nor any
  \<open>t\<close> wraps around: the loop makes \<open>n_steps b e\<close> rounds.
\<close>
lemma loop_bounds:
  fixes b e :: uint32
  assumes "b \<le> e" and "unat e + 2 * 604800 \<le> 2 ^ 32"
  shows "\<forall>k<n_steps b e. b + of_nat k * 604800 < e + 7 * 86400"
    and "\<not> b + of_nat (n_steps b e) * 604800 < e + 7 * 86400"
    and "\<forall>k<n_steps b e. unat b + k * 604800 < 2 ^ 32"
    and "\<forall>k<n_steps b e. unat (b + of_nat k * 604800) = unat b + k * 604800"
proof -
  let ?W = "604800 :: nat"
  let ?d = "unat e - unat b"
  let ?c = "(?d + ?W - 1) div ?W"
  from assms(1) have be: "unat b \<le> unat e" by (simp add: word_le_nat_alt)
  have lim: "unat (e + 7 * 86400) = unat e + ?W"
    using assms(2) by (simp add: unat_word_ariths)
  have c1: "?c * ?W < ?d + ?W" and c2: "?d \<le> ?c * ?W"
    using ceil_bounds [of ?W ?d] by simp_all
  have n: "n_steps b e = ?c + 1" by (simp add: n_steps_def)
  have small: "unat b + k * ?W < unat e + ?W" if "k < n_steps b e" for k
  proof -
    from that n have "k \<le> ?c" by simp
    then have "k * ?W \<le> ?c * ?W" by (rule mult_le_mono1)
    with c1 be show ?thesis by linarith
  qed
  show s3: "\<forall>k<n_steps b e. unat b + k * 604800 < 2 ^ 32"
    using small assms(2) by fastforce
  show s4: "\<forall>k<n_steps b e. unat (b + of_nat k * 604800) = unat b + k * 604800"
    using s3 unat_step by blast
  show "\<forall>k<n_steps b e. b + of_nat k * 604800 < e + 7 * 86400"
    using small s4 lim by (simp add: word_less_nat_alt)
  have big: "unat e + ?W \<le> unat b + n_steps b e * ?W"
    using c2 be n by simp
  have "unat b + n_steps b e * ?W < unat e + 2 * ?W"
    using c1 be n by simp
  with assms(2) have "unat b + n_steps b e * ?W < 2 ^ 32" by linarith
  then have "unat (b + of_nat (n_steps b e) * 604800) = unat b + n_steps b e * ?W"
    by (rule unat_step)
  with big lim show "\<not> b + of_nat (n_steps b e) * 604800 < e + 7 * 86400"
    by (simp add: word_less_nat_alt)
qed

lemma for_weeks_no_overflow:
  fixes b e :: uint32
  assumes "b \<le> e" and "unat e + 2 * 604800 \<le> 2 ^ 32"
  shows "for_weeks body b (e + 7 * 86400) s = Some (run_body body (steps b (n_steps b e)) s)"
  using loop_bounds(1,2) [OF assms] by (rule for_weeks_steps)

lemma week_of_step:
  fixes b e :: uint32
  assumes "b \<le> e" and "unat e + 2 * 604800 \<le> 2 ^ 32" and "k < n_steps b e"
  shows "unat (getWeekNum (b + of_nat k * 604800)) = unat (getWeekNum b) + k"
  using loop_bounds(4) [OF assms(1,2)] assms(3)
  by (simp add: getWeekNum_def unat_div)

lemma weeks_covered:
  fixes b e :: uint32
  assumes "b \<le> e"
  shows "unat (getWeekNum e) < unat (getWeekNum b) + n_steps b e"
proof -
  let ?W = "604800 :: nat"
  let ?d = "unat e - unat b"
  from assms have be: "unat b \<le> unat e" by (simp add: word_le_nat_alt)
  have c2: "?d \<le> ((?d + ?W - 1) div ?W) * ?W"
    using ceil_bounds(2) [of ?W ?d] by simp
  have "unat e \<le> unat b + ((?d + ?W - 1) div ?W) * ?W" using c2 be by linarith
  then have "unat e div ?W \<le> (unat b + ((?d + ?W - 1) div ?W) * ?W) div ?W"
    by (rule div_le_mono)
  then have "unat e div ?W \<le> unat b div ?W + (?d + ?W - 1) div ?W"
    by simp
  then show ?thesis
    by (simp add: getWeekNum_def unat_div n_steps_def)
qed

text \<open>
  Away from the top of the 32-bit range the loop ends and visits a timestamp in every
  week from that of \<open>begin\<close> to that of \<open>end\<close>.
\<close>
lemma visited_covers_weeks:
  assumes "begin \<le> end" and "unat end + 2 * 604800 \<le> 2 ^ 32"
  shows "\<exists>ts. visited begin end = Some (Inr ts) \<and>
           (\<forall>w. unat (getWeekNum begin) \<le> w \<and> w \<le> unat (getWeekNum end) \<longrightarrow>
                (\<exists>t\<in>set ts. unat (getWeekNum t) = w))"
proof -
  let ?n = "n_steps begin end"
  have v: "visited begin end = Some (Inr (steps begin ?n))"
    unfolding visited_def for_weeks_no_overflow [OF assms] by (simp add: run_body_record)
  have "\<exists>t\<in>set (steps begin ?n). unat (getWeekNum t) = w"
    if w: "unat (getWeekNum begin) \<le> w" "w \<le> unat (getWeekNum end)" for w
  proof -
    let ?k = "w - unat (getWeekNum begin)"
    from w weeks_covered [OF assms(1)] have k: "?k < ?n" by linarith
    then have "begin + of_nat ?k * 604800 \<in> set (steps begin ?n)"
      by (auto simp: steps_def)
    moreover have "unat (getWeekNum (begin + of_nat ?k * 604800)) = w"
      using week_of_step [OF assms k] w(1) by simp
    ultimately show ?thesis by blast
  qed
  with v show ?thesis by blast
qed

text \<open>
  Claim C5: for \<open>begin \<le> end\<close> the loop of the ranged \<^verbatim>\<open>retrieveVals\<close> visits a timestamp
  in every week from that of \<open>begin\<close> to that of \<open>end\<close>, also when \<^verbatim>\<open>end + 604800\<close>
  overflows. With \<open>begin = 0\<close> and \<open>end = 4294967295\<close> the bound \<^verbatim>\<open>end + 7*86400\<close> wraps to
  604799: the body runs for \<open>t = 0\<close> only, and none of the weeks 1 to 7101 is visited.
\<close>
theorem visited_overflow:
  "(0 :: uint32) \<le> 4294967295 \<and>
   getWeekNum 4294967295 = 7101 \<and>
   (4294967295 :: uint32) + 7 * 86400 = 604799 \<and>
   visited 0 4294967295 = Some (Inr [0])"
  by code_simp

text \<open>
  Nor does the loop always end. Every \<open>t\<close> but \<open>2\<^sup>3\<^sup>2 - 1\<close> is below the bound
  \<open>2\<^sup>3\<^sup>2 - 1\<close>, and a step of 604800, a multiple of 128, keeps \<open>t mod 128\<close>: from
  \<open>begin = 4294362494\<close> with \<open>end = 4294362495\<close> the loop wraps around and never leaves,
  although \<^verbatim>\<open>end + 7*86400\<close> itself does not overflow.
\<close>
lemma step_keeps_residue: "unat (t + 604800 :: uint32) mod 128 = unat t mod 128"
proof -
  have "unat (t + 604800) = (unat t + 604800) mod 2 ^ 32"
    by (simp add: unat_word_ariths)
  also have "\<dots> mod 128 = (unat t + 604800) mod 128"
    by (rule mod_mod_cancel) simp
  also have "\<dots> = unat t mod 128"
  proof -
    have "(unat t + 604800) mod 128 = (unat t + 128 * 4725) mod 128" by simp
    also have "\<dots> = unat t mod 128" by (rule mod_mult_self2)
    finally show ?thesis .
  qed
  finally show ?thesis .
qed

lemma residue_below_max: "unat (t :: uint32) mod 128 = 126 \<Longrightarrow> t < 4294967295"
proof -
  assume a: "unat t mod 128 = 126"
  have "unat t < 2 ^ LENGTH(32)" by (rule unsigned_less)
  then have "unat t < 4294967296" by simp
  moreover have "unat t \<noteq> 4294967295"
  proof
    assume "unat t = 4294967295"
    with a show False by simp
  qed
  ultimately have "unat t < 4294967295" by linarith
  then show ?thesis by (simp add: word_less_nat_alt)
qed

lemma for_weeks_Some_exits:
  assumes "for_weeks body t lim s = Some y"
  shows "\<not> (lim = 4294967295 \<and> unat t mod 128 = 126 \<and> (\<forall>t s. \<exists>s'. body t s = Inr s'))"
proof (rule for_weeks.raw_induct
    [where P = "\<lambda>body t lim s y.
       \<not> (lim = 4294967295 \<and> unat t mod 128 = 126 \<and> (\<forall>t s. \<exists>s'. body t s = Inr s'))",
     OF _ assms])
  fix loop :: "(uint32 \<Rightarrow> 'a \<Rightarrow> error + 'a) \<Rightarrow> uint32 \<Rightarrow> uint32 \<Rightarrow> 'a \<Rightarrow> (error + 'a) option"
    and body t lim s y
  assume IH: "\<And>body t lim s y. loop body t lim s = Some y \<Longrightarrow>
      \<not> (lim = 4294967295 \<and> unat t mod 128 = 126 \<and> (\<forall>t s. \<exists>s'. body t s = Inr s'))"
    and unfolded: "(if t < lim
          then case body t s of Inl e \<Rightarrow> Some (Inl e) | Inr s' \<Rightarrow> loop body (t + 7 * 86400) lim s'
          else Some (Inr s)) = Some y"
  show "\<not> (lim = 4294967295 \<and> unat t mod 128 = 126 \<and> (\<forall>t s. \<exists>s'. body t s = Inr s'))"
  proof
    assume inv: "lim = 4294967295 \<and> unat t mod 128 = 126 \<and> (\<forall>t s. \<exists>s'. body t s = Inr s')"
    then have lt: "t < lim" using residue_below_max by blast
    from inv obtain s' where s': "body t s = Inr s'" by blast
    with lt unfolded have "loop body (t + 7 * 86400) lim s' = Some y" by simp
    from IH [OF this]
    have "\<not> (lim = 4294967295 \<and> unat (t + 7 * 86400) mod 128 = 126 \<and> (\<forall>t s. \<exists>s'. body t s = Inr s'))" .
    moreover have "unat (t + 7 * 86400) mod 128 = 126"
      using inv step_keeps_residue [of t] by simp
    ultimately show False using inv by blast
  qed
qed

lemma for_weeks_never_ends:
  assumes "unat t mod 128 = 126" and "\<forall>t s. \<exists>s'. body t s = Inr s'"
  shows "for_weeks body t 4294967295 s = None"
proof (cases "for_weeks body t 4294967295 s")
  case None
  then show ?thesis .
next
  case (Some y)
  from for_weeks_Some_exits [OF this] assms show ?thesis by blast
qed

lemma retrieve_range_never_returns:
  "(4294362494 :: int64) \<le> 4294362495 \<and>
   retrieve_range std_sort \<lparr>dir_ok = True, entries = [], space = 64\<rparr> ''cpu'' 4294362494 4294362495 number = None"
proof -
  let ?fs = "\<lparr>dir_ok = True, entries = [], space = 64\<rparr>"
  have cpu: "regexec_d_preg ''cpu''" by code_simp
  have "length (c_str (makeFilename ''cpu'' t)) \<le> name_max" for t
    using length_makeFilename [of "''cpu''" t] by (simp add: c_str_makeFilename [OF cpu] name_max_def)
  then have body: "\<forall>t s. \<exists>s'. retrieveAllFromFile ?fs (makeFilename ''cpu'' t) s = Inr s'"
    by (simp add: retrieveAllFromFile_def not_less [symmetric])
  have "unat (4294362494 :: uint32) mod 128 = 126" by simp
  from for_weeks_never_ends [OF this body, of "[]"]
  have "retrieveVals_range std_sort ?fs ''cpu'' 4294362494 4294362495 = None"
    by (simp add: retrieveVals_range_def)
  moreover have "(ucast (4294362494 :: int64) :: uint32) = 4294362494" by simp
  moreover have "(ucast (4294362495 :: int64) :: uint32) = 4294362495" by simp
  ultimately show ?thesis by (simp add: retrieve_range_def)
qed


subsection \<open>The binary search\<close>

text \<open>
  On a sequence in which the records less than \<open>x\<close> come first, the loop of
  \<^verbatim>\<open>lower_bound\<close> returns the index of the first record that is not less than \<open>x\<close>.
\<close>

lemma lower_bound_loop_spec:
  assumes "\<forall>i j. i \<le> j \<and> j < length vs \<and> val_less_int (vs ! j) x \<longrightarrow> val_less_int (vs ! i) x"
    and "first + len \<le> length vs"
    and "\<forall>i<first. val_less_int (vs ! i) x"
    and "\<forall>i. first + len \<le> i \<and> i < length vs \<longrightarrow> \<not> val_less_int (vs ! i) x"
  shows "lower_bound_loop vs x first len \<le> length vs \<and>
         (\<forall>i<lower_bound_loop vs x first len. val_less_int (vs ! i) x) \<and>
         (\<forall>i. lower_bound_loop vs x first len \<le> i \<and> i < length vs \<longrightarrow> \<not> val_less_int (vs ! i) x)"
  using assms
proof (induction vs x first len rule: lower_bound_loop.induct)
  case (1 vs x first len)
  note mono = "1.prems"(1) [rule_format, OF conjI, OF _ conjI]
  note bound = "1.prems"(2) and below = "1.prems"(3) and above = "1.prems"(4)
  show ?case
  proof (cases "0 < len")
    case False
    with bound below above show ?thesis by (subst (1 2 3) lower_bound_loop.simps) simp
  next
    case True
    let ?half = "len div 2"
    let ?middle = "first + ?half"
    from True have hl: "?half < len" by simp
    with bound have ml: "?middle < length vs" by linarith
    show ?thesis
    proof (cases "val_less_int (vs ! ?middle) x")
      case less: True
      have a: "?middle + 1 + (len - ?half - 1) \<le> length vs"
        using hl bound by linarith
      have b: "\<forall>i<?middle + 1. val_less_int (vs ! i) x"
      proof (intro allI impI)
        fix i assume "i < ?middle + 1"
        then have "i \<le> ?middle" by simp
        from mono [OF this ml less] show "val_less_int (vs ! i) x" .
      qed
      have c: "\<forall>i. ?middle + 1 + (len - ?half - 1) \<le> i \<and> i < length vs \<longrightarrow> \<not> val_less_int (vs ! i) x"
      proof (intro allI impI)
        fix i assume i: "?middle + 1 + (len - ?half - 1) \<le> i \<and> i < length vs"
        with hl have "first + len \<le> i" by linarith
        with i above show "\<not> val_less_int (vs ! i) x" by blast
      qed
      have eq: "lower_bound_loop vs x first len = lower_bound_loop vs x (?middle + 1) (len - ?half - 1)"
        using True less by (subst lower_bound_loop.simps) (simp add: Let_def)
      from "1.IH"(1) [OF True refl refl less "1.prems"(1) a b c] show ?thesis
        unfolding eq .
    next
      case notless: False
      have a: "first + ?half \<le> length vs" using ml by simp
      have c: "\<forall>i. first + ?half \<le> i \<and> i < length vs \<longrightarrow> \<not> val_less_int (vs ! i) x"
      proof (intro allI impI)
        fix i assume i: "first + ?half \<le> i \<and> i < length vs"
        show "\<not> val_less_int (vs ! i) x"
        proof
          assume "val_less_int (vs ! i) x"
          from mono [OF _ _ this, of ?middle] i have "val_less_int (vs ! ?middle) x" by simp
          with notless show False by contradiction
        qed
      qed
      have eq: "lower_bound_loop vs x first len = lower_bound_loop vs x first ?half"
        using True notless by (subst lower_bound_loop.simps) (simp add: Let_def)
      from "1.IH"(2) [OF True refl refl notless "1.prems"(1) a below c] show ?thesis
        unfolding eq .
    qed
  qed
qed

lemma sorted_val_less_int_mono:
  assumes "sorted (map v_timestamp vs)" and "i \<le> j" and "j < length vs"
    and "val_less_int (vs ! j) x"
  shows "val_less_int (vs ! i) x"
proof -
  from assms(1-3) have "map v_timestamp vs ! i \<le> map v_timestamp vs ! j"
    by (intro sorted_nth_mono) simp_all
  with assms(2,3) have "v_timestamp (vs ! i) \<le> v_timestamp (vs ! j)" by simp
  then have "uint (v_timestamp (vs ! i)) \<le> uint (v_timestamp (vs ! j))"
    by (simp add: word_le_def)
  with assms(4) show ?thesis by (simp add: val_less_int_def)
qed

lemma lower_bound_spec:
  assumes "sorted (map v_timestamp vs)"
  shows "lower_bound vs x \<le> length vs \<and>
         (\<forall>i<lower_bound vs x. val_less_int (vs ! i) x) \<and>
         (\<forall>i. lower_bound vs x \<le> i \<and> i < length vs \<longrightarrow> \<not> val_less_int (vs ! i) x)"
  unfolding lower_bound_def
  using assms by (intro lower_bound_loop_spec) (auto intro: sorted_val_less_int_mono)

lemma filter_three_parts:
  assumes "\<forall>a\<in>set as. \<not> Q a" and "\<forall>b\<in>set bs. Q b" and "\<forall>c\<in>set cs. \<not> Q c"
  shows "filter Q (as @ bs @ cs) = bs"
  using assms by (simp add: filter_id_conv filter_empty_conv)

lemma slice_is_filter:
  assumes bi: "bi \<le> length vs" "\<forall>i<bi. P (vs ! i)" "\<forall>i. bi \<le> i \<and> i < length vs \<longrightarrow> \<not> P (vs ! i)"
    and ei: "ei \<le> length vs" "\<forall>i<ei. R (vs ! i)" "\<forall>i. ei \<le> i \<and> i < length vs \<longrightarrow> \<not> R (vs ! i)"
    and PR: "\<And>v. P v \<Longrightarrow> R v"
  shows "bi \<le> ei" and "take (ei - bi) (drop bi vs) = filter (\<lambda>v. \<not> P v \<and> R v) vs"
proof -
  show le: "bi \<le> ei"
  proof (rule ccontr)
    assume "\<not> bi \<le> ei"
    then have "ei < bi" by simp
    with bi(1,2) ei(3) PR show False by (metis le_refl less_le_trans)
  qed
  have split: "vs = take bi vs @ take (ei - bi) (drop bi vs) @ drop ei vs"
  proof -
    have "take (ei - bi) (drop bi vs) @ drop (ei - bi) (drop bi vs) = drop bi vs"
      by (rule append_take_drop_id)
    moreover have "drop (ei - bi) (drop bi vs) = drop ei vs" using le by simp
    moreover have "take bi vs @ drop bi vs = vs" by (rule append_take_drop_id)
    ultimately show ?thesis by metis
  qed
  have a: "\<forall>a\<in>set (take bi vs). \<not> (\<not> P a \<and> R a)"
    using bi(1,2) by (auto simp: in_set_conv_nth)
  have b: "\<forall>b\<in>set (take (ei - bi) (drop bi vs)). \<not> P b \<and> R b"
  proof
    fix b assume "b \<in> set (take (ei - bi) (drop bi vs))"
    then obtain i where i: "i < ei - bi" "i < length vs - bi" "b = vs ! (bi + i)"
      by (auto simp: in_set_conv_nth)
    then have "bi \<le> bi + i" "bi + i < length vs" "bi + i < ei" by simp_all
    with bi(3) ei(2) i(3) show "\<not> P b \<and> R b" by blast
  qed
  have c: "\<forall>c\<in>set (drop ei vs). \<not> (\<not> P c \<and> R c)"
  proof
    fix c assume "c \<in> set (drop ei vs)"
    then obtain i where i: "i < length vs - ei" "c = vs ! (ei + i)"
      by (auto simp: in_set_conv_nth)
    then have "ei \<le> ei + i" "ei + i < length vs" by simp_all
    with ei(3) i(2) show "\<not> (\<not> P c \<and> R c)" by blast
  qed
  from filter_three_parts [OF a b c] split
  show "take (ei - bi) (drop bi vs) = filter (\<lambda>v. \<not> P v \<and> R v) vs" by metis
qed

lemma retrieve_range_of_vals:
  assumes rv: "retrieveVals_range std_sort fs name (ucast begin) (ucast end) = Some (Inr vs)"
    and sorted_vs: "sorted (map v_timestamp vs)"
    and le: "sint begin \<le> sint end"
  shows "retrieve_range std_sort fs name begin end number =
           Some (Inr (map Datum_of_Val (filter (in_range begin end) vs)))"
proof -
  let ?P = "\<lambda>v. val_less_int v begin"
  let ?R = "\<lambda>v. val_less_int v end"
  let ?bi = "lower_bound vs begin"
  let ?ei = "lower_bound vs end"
  have PR: "?P v \<Longrightarrow> ?R v" for v
    using le by (simp add: val_less_int_def)
  from lower_bound_spec [OF sorted_vs, of "begin"]
  have b1: "?bi \<le> length vs" and b2: "\<forall>i<?bi. ?P (vs ! i)"
    and b3: "\<forall>i. ?bi \<le> i \<and> i < length vs \<longrightarrow> \<not> ?P (vs ! i)"
    by blast+
  from lower_bound_spec [OF sorted_vs, of "end"]
  have e1: "?ei \<le> length vs" and e2: "\<forall>i<?ei. ?R (vs ! i)"
    and e3: "\<forall>i. ?ei \<le> i \<and> i < length vs \<longrightarrow> \<not> ?R (vs ! i)"
    by blast+
  have ord: "?bi \<le> ?ei"
    by (rule slice_is_filter(1) [where P = ?P and R = ?R and vs = vs, OF b1 b2 b3 e1 e2 e3 PR])
  have "take (?ei - ?bi) (drop ?bi vs) = filter (\<lambda>v. \<not> ?P v \<and> ?R v) vs"
    by (rule slice_is_filter(2) [where P = ?P and R = ?R and vs = vs, OF b1 b2 b3 e1 e2 e3 PR])
  also have "(\<lambda>v. \<not> ?P v \<and> ?R v) = in_range begin end"
    by (auto simp: fun_eq_iff val_less_int_def in_range_def)
  finally have slice: "take (?ei - ?bi) (drop ?bi vs) = filter (in_range begin end) vs" .
  show ?thesis
  proof (cases "vs = []")
    case True
    with rv show ?thesis by (simp add: retrieve_range_def)
  next
    case False
    with rv ord show ?thesis
      by (simp only: retrieve_range_def Let_def slice option.case sum.case if_False not_less [symmetric] not_not)
  qed
qed

subsection \<open>The \<^verbatim>\<open>number\<close> parameter\<close>

text \<open>
  Claim C8: the \<^verbatim>\<open>number\<close> (limit) parameter of the ranged \<^verbatim>\<open>retrieve\<close> has no effect:
  any two values of it give the same result, and the full bounded range is returned,
  not cut down to \<^verbatim>\<open>number\<close> entries. For every sort routine, directory, name and bounds,
  two values of the parameter give the same outcome (the same sequence, the same error
  or the same endless run). And whenever the shards are read without error, giving the
  records \<open>vs\<close>, and \<open>begin \<le> end\<close>, the result for any value of \<^verbatim>\<open>number\<close> is every
  record of \<open>vs\<close> with \<open>begin \<le> t < end\<close>, in the order of \<open>vs\<close>: as many as there are.
\<close>
theorem retrieve_range_no_truncation:
  "retrieve_range std_sort fs name begin end n1 = retrieve_range std_sort fs name begin end n2 \<and>
   (sorts std_sort \<longrightarrow> sint begin \<le> sint end \<longrightarrow>
    retrieveVals_range std_sort fs name (ucast begin) (ucast end) = Some (Inr vs) \<longrightarrow>
    retrieve_range std_sort fs name begin end n1 =
      Some (Inr (map Datum_of_Val (filter (in_range begin end) vs))))"
proof (intro conjI impI)
  show "retrieve_range std_sort fs name begin end n1 = retrieve_range std_sort fs name begin end n2"
    by (simp add: retrieve_range_def)
next
  assume srt: "sorts std_sort" and le: "sint begin \<le> sint end"
    and rv: "retrieveVals_range std_sort fs name (ucast begin) (ucast end) = Some (Inr vs)"
  from srt rv have "sorted (map v_timestamp vs)" by (rule retrieveVals_range_sorted)
  with rv show "retrieve_range std_sort fs name begin end n1 =
      Some (Inr (map Datum_of_Val (filter (in_range begin end) vs)))"
    using le by (rule retrieve_range_of_vals)
qed

text \<open>
  Four records in two shards, three of them in the range from 0 to 100, and the limits
  1 and 10: all three records are returned for either limit.
\<close>
theorem retrieve_range_no_truncation_witness:
  "sorts (sort_key v_timestamp) \<and> sint (0 :: int64) \<le> sint (100 :: int64) \<and>
   retrieveVals_range (sort_key v_timestamp)
     \<lparr>dir_ok = True,
      entries = [(''m.0'', File [20, 0, 0, 0, 0, 0, 0, 64, 5, 0, 0, 0, 0, 0, 128, 63, 10, 0, 0, 0, 0, 0, 0, 0]),
                 (''m.1'', File [129, 58, 9, 0, 0, 0, 128, 63])],
      space = 32\<rparr> ''m'' (ucast (0 :: int64)) (ucast (100 :: int64)) =
     Some (Inr [\<lparr>v_timestamp = 5, v_value = 0x3F800000\<rparr>, \<lparr>v_timestamp = 10, v_value = 0\<rparr>,
                \<lparr>v_timestamp = 20, v_value = 0x40000000\<rparr>, \<lparr>v_timestamp = 604801, v_value = 0x3F800000\<rparr>]) \<and>
   retrieve_range (sort_key v_timestamp)
     \<lparr>dir_ok = True,
      entries = [(''m.0'', File [20, 0, 0, 0, 0, 0, 0, 64, 5, 0, 0, 0, 0, 0, 128, 63, 10, 0, 0, 0, 0, 0, 0, 0]),
                 (''m.1'', File [129, 58, 9, 0, 0, 0, 128, 63])],
      space = 32\<rparr> ''m'' 0 100 1 =
   retrieve_range (sort_key v_timestamp)
     \<lparr>dir_ok = True,
      entries = [(''m.0'', File [20, 0, 0, 0, 0, 0, 0, 64, 5, 0, 0, 0, 0, 0, 128, 63, 10, 0, 0, 0, 0, 0, 0, 0]),
                 (''m.1'', File [129, 58, 9, 0, 0, 0, 128, 63])],
      space = 32\<rparr> ''m'' 0 100 10 \<and>
   retrieve_range (sort_key v_timestamp)
     \<lparr>dir_ok = True,
      entries = [(''m.0'', File [20, 0, 0, 0, 0, 0, 0, 64, 5, 0, 0, 0, 0, 0, 128, 63, 10, 0, 0, 0, 0, 0, 0, 0]),
                 (''m.1'', File [129, 58, 9, 0, 0, 0, 128, 63])],
      space = 32\<rparr> ''m'' 0 100 1 =
     Some (Inr [\<lparr>d_timestamp = 5, d_value = 0x3F800000\<rparr>, \<lparr>d_timestamp = 10, d_value = 0\<rparr>,
                \<lparr>d_timestamp = 20, d_value = 0x40000000\<rparr>]) \<and>
   (1 :: nat) < length [\<lparr>d_timestamp = 5, d_value = 0x3F800000\<rparr>, \<lparr>d_timestamp = 10, d_value = 0\<rparr>,
                       \<lparr>d_timestamp = 20, d_value = 0x40000000 :: float32\<rparr>]"
proof -
  let ?fs = "\<lparr>dir_ok = True,
      entries = [(''m.0'', File [20, 0, 0, 0, 0, 0, 0, 64, 5, 0, 0, 0, 0, 0, 128, 63, 10, 0, 0, 0, 0, 0, 0, 0]),
                 (''m.1'', File [129, 58, 9, 0, 0, 0, 128, 63])],
      space = 32\<rparr>"
  let ?vs = "[\<lparr>v_timestamp = 5, v_value = 0x3F800000\<rparr>, \<lparr>v_timestamp = 10, v_value = 0\<rparr>,
              \<lparr>v_timestamp = 20, v_value = 0x40000000\<rparr>, \<lparr>v_timestamp = 604801, v_value = 0x3F800000\<rparr>]"
  have h1: "sorts (sort_key v_timestamp)" by (simp add: sorts_def is_sorted_iff)
  have h2: "sint (0 :: int64) \<le> sint (100 :: int64)" by simp
  have h3: "retrieveVals_range (sort_key v_timestamp) ?fs ''m'' (ucast (0 :: int64)) (ucast (100 :: int64)) =
      Some (Inr ?vs)"
    by code_simp
  have h4: "map Datum_of_Val (filter (in_range 0 100) ?vs) =
      [\<lparr>d_timestamp = 5, d_value = 0x3F800000\<rparr>, \<lparr>d_timestamp = 10, d_value = 0\<rparr>,
       \<lparr>d_timestamp = 20, d_value = 0x40000000\<rparr>]"
    by code_simp
  note inst = retrieve_range_no_truncation
    [of "sort_key v_timestamp" ?fs "''m''" 0 100 1 10 ?vs]
  from inst [THEN conjunct1] inst [THEN conjunct2, rule_format, OF h1 h2 h3] h1 h2 h3
  show ?thesis unfolding h4 by simp
qed

subsection \<open>The ranged \<^verbatim>\<open>retrieve\<close>\<close>

lemma narrow_time:
  fixes x :: int64
  assumes "0 \<le> sint x" and "sint x < 2 ^ 32"
  shows "uint (ucast x :: uint32) = sint x"
proof -
  have "uint x = take_bit 64 (sint x)" by (simp add: uint_sint)
  also have "\<dots> = sint x"
    using assms by (intro take_bit_int_eq_self) simp_all
  finally have su: "sint x = uint x" by simp
  have "uint (ucast x :: uint32) = take_bit 32 (uint x)"
    by (simp add: unsigned_ucast_eq)
  also have "\<dots> = uint x"
    using assms su by (simp add: take_bit_int_eq_self)
  finally show ?thesis using su by simp
qed

lemma week_lt:
  fixes t :: uint32
  assumes "unat (getWeekNum t) < w"
  shows "unat t < w * 604800"
proof -
  from assms have "unat t div 604800 < w" by (simp add: getWeekNum_def unat_div)
  then show ?thesis by (simp add: div_less_iff_less_mult)
qed

lemma week_gt:
  fixes t e :: uint32
  assumes "unat (getWeekNum e) < unat (getWeekNum t)"
  shows "unat e < unat t"
proof -
  from assms have "unat e div 604800 < unat t div 604800" by (simp add: getWeekNum_def unat_div)
  then show ?thesis
    by (meson div_le_mono leD leI)
qed

lemma upt_three_parts:
  assumes "a \<le> b" and "b \<le> c"
  shows "[0..<c] = [0..<a] @ [a..<b] @ [b..<c]"
proof -
  have "[0..<b + (c - b)] = [0..<b] @ [b..<b + (c - b)]"
    by (rule upt_add_eq_append) simp
  moreover have "[0..<a + (b - a)] = [0..<a] @ [a..<a + (b - a)]"
    by (rule upt_add_eq_append) simp
  ultimately show ?thesis using assms by simp
qed

lemma filter_concat_empty:
  "(\<forall>k\<in>set ks. \<forall>v\<in>set (F k). \<not> Q v) \<Longrightarrow> filter Q (concat (map F ks)) = []"
  by (induction ks) (simp_all add: filter_empty_conv)

text \<open>
  Away from the top of the 32-bit range the ranged \<^verbatim>\<open>retrieve\<close> is exact. For a name
  without \<^verbatim>\<open>/\<close>, bounds \<open>0 \<le> begin \<le> end\<close> with \<open>end + 2 * 604800 \<le> 2\<^sup>3\<^sup>2\<close>, shards that can
  be read and that hold records of their own week only, it returns, and what it returns
  are the stored records with \<open>begin \<le> t < end\<close>, each as often as it is stored.
\<close>
theorem retrieve_range_exact:
  assumes slash: "CHR ''/'' \<notin> set name"
    and srt: "sorts std_sort"
    and bounds: "0 \<le> sint begin" "sint begin \<le> sint end" "sint end + 2 * 604800 \<le> 2 ^ 32"
    and rd: "\<forall>k<n_weeks. readable fs (shard_name name k)"
    and inv: "\<forall>k<n_weeks. \<forall>v\<in>set (file_vals fs (shard_name name k)). unat (getWeekNum (v_timestamp v)) = k"
  shows "\<exists>ds. retrieve_range std_sort fs name begin end number = Some (Inr ds) \<and>
           mset ds = image_mset Datum_of_Val
                       (filter_mset (in_range begin end) (mset (stored_vals fs name)))"
proof -
  define b :: uint32 where "b = ucast begin"
  define e :: uint32 where "e = ucast end"
  let ?W = "604800 :: nat"
  let ?n = "n_steps b e"
  let ?wb = "unat (getWeekNum b)"
  let ?F = "\<lambda>k. file_vals fs (shard_name name k)"
  let ?Q = "in_range begin end"
  have ub: "uint b = sint begin" unfolding b_def using bounds by (intro narrow_time) simp_all
  have ue: "uint e = sint end" unfolding e_def using bounds by (intro narrow_time) simp_all
  have be: "b \<le> e" using ub ue bounds(2) by (simp add: word_le_def)
  have "int (unat e) + 1209600 \<le> 4294967296" using ue bounds(3) by simp
  then have "unat e + 1209600 \<le> 4294967296" by linarith
  then have ov: "unat e + 2 * 604800 \<le> 2 ^ 32" by simp
  have npos: "0 < ?n" by (simp add: n_steps_def)
  have week: "unat (getWeekNum (b + of_nat k * 604800)) = ?wb + k" if "k < ?n" for k
    using be ov that by (rule week_of_step)
  have top: "?wb + ?n \<le> n_weeks"
  proof -
    from npos have "?n - 1 < ?n" by simp
    from week [OF this] week_le_max [of "b + of_nat (?n - 1) * 604800"]
    have "?wb + (?n - 1) < n_weeks" by simp
    with npos show ?thesis by linarith
  qed
  have names: "map (\<lambda>t. file_vals fs (makeFilename name t)) (steps b ?n) = map ?F [?wb..<?wb + ?n]"
  proof -
    have "map (\<lambda>t. file_vals fs (makeFilename name t)) (steps b ?n) = map (\<lambda>k. ?F (k + ?wb)) [0..<?n]"
      unfolding steps_def map_map
      by (rule map_cong) (simp_all add: makeFilename_shard week add.commute)
    also have "\<dots> = map ?F (map (\<lambda>k. k + ?wb) [0..<?n])" by (simp add: comp_def)
    also have "\<dots> = map ?F [?wb..<?n + ?wb]" by (simp only: map_add_upt)
    finally show ?thesis by (simp add: add.commute)
  qed
  have rdall: "\<forall>t\<in>set (steps b ?n). readable fs (makeFilename name t)"
  proof
    fix t assume "t \<in> set (steps b ?n)"
    then obtain k where k: "k < ?n" "t = b + of_nat k * 604800" by (auto simp: steps_def)
    with week [OF k(1)] top have "unat (getWeekNum t) < n_weeks" by simp
    with rd show "readable fs (makeFilename name t)" by (simp add: makeFilename_shard)
  qed
  define got where "got = concat (map ?F [?wb..<?wb + ?n])"
  define vs where "vs = (if \<not> is_sorted got then std_sort got else got)"
  let ?body = "\<lambda>t values. retrieveAllFromFile fs (makeFilename name t) values"
  have "run_body ?body (steps b ?n) [] = Inr got"
    using run_body_read [OF rdall, of "[]"] names by (simp add: got_def)
  moreover have "for_weeks ?body b (e + 7 * 86400) [] = Some (run_body ?body (steps b ?n) [])"
    by (rule for_weeks_no_overflow [OF be ov])
  ultimately have loop: "for_weeks ?body b (e + 7 * 86400) [] = Some (Inr got)"
    by simp
  have rv: "retrieveVals_range std_sort fs name (ucast begin) (ucast end) = Some (Inr vs)"
    using slash loop by (simp add: retrieveVals_range_def vs_def b_def e_def)
  have sorted_vs: "sorted (map v_timestamp vs)"
    using srt by (auto simp: vs_def sorts_def is_sorted_iff)
  have mset_vs: "mset vs = mset got"
    using srt by (simp add: vs_def sorts_def)
  have low: "\<not> ?Q v" if "k < ?wb" "v \<in> set (?F k)" for k v
  proof -
    from that(1) top have "k < n_weeks" by linarith
    with inv that(2) have "unat (getWeekNum (v_timestamp v)) = k" by blast
    with that(1) have "unat (v_timestamp v) < ?wb * ?W" by (intro week_lt) simp
    also have "?wb * ?W \<le> unat b" by (simp add: getWeekNum_def unat_div)
    finally have "uint (v_timestamp v) < uint b" by (simp add: word_less_nat_alt [symmetric] word_less_def)
    then show ?thesis by (simp add: in_range_def ub)
  qed
  have high: "\<not> ?Q v" if "?wb + ?n \<le> k" "k < n_weeks" "v \<in> set (?F k)" for k v
  proof -
    from inv that(2,3) have "unat (getWeekNum (v_timestamp v)) = k" by blast
    with weeks_covered [OF be] that(1) have "unat (getWeekNum e) < unat (getWeekNum (v_timestamp v))"
      by linarith
    then have "unat e < unat (v_timestamp v)" by (rule week_gt)
    then have "uint e < uint (v_timestamp v)" by (simp add: word_less_nat_alt [symmetric] word_less_def)
    then show ?thesis by (simp add: in_range_def ue)
  qed
  have filt: "filter ?Q (stored_vals fs name) = filter ?Q got"
  proof -
    have "[0..<n_weeks] = [0..<?wb] @ [?wb..<?wb + ?n] @ [?wb + ?n..<n_weeks]"
      using top by (intro upt_three_parts) simp_all
    then have "stored_vals fs name =
        concat (map ?F [0..<?wb]) @ got @ concat (map ?F [?wb + ?n..<n_weeks])"
      by (simp add: stored_vals_def got_def)
    moreover have "filter ?Q (concat (map ?F [0..<?wb])) = []"
      by (rule filter_concat_empty) (use low in auto)
    moreover have "filter ?Q (concat (map ?F [?wb + ?n..<n_weeks])) = []"
      by (rule filter_concat_empty) (use high in auto)
    ultimately show ?thesis by simp
  qed
  have res: "retrieve_range std_sort fs name begin end number = Some (Inr (map Datum_of_Val (filter ?Q vs)))"
    using rv sorted_vs bounds(2) by (rule retrieve_range_of_vals)
  have "mset (map Datum_of_Val (filter ?Q vs)) = image_mset Datum_of_Val (filter_mset ?Q (mset vs))"
    by simp
  also have "filter_mset ?Q (mset vs) = mset (filter ?Q got)" by (simp add: mset_vs)
  also have "\<dots> = filter_mset ?Q (mset (stored_vals fs name))" by (simp add: filt [symmetric])
  finally show ?thesis using res by blast
qed

subsection \<open>Writes followed by a ranged read\<close>

text \<open>
  A \<^verbatim>\<open>store\<close> touches no entry but the one it appends to; when it returns without error
  it has opened the shard; it takes at most the eight bytes of the record from the
  device.
\<close>

lemma fopen_a_others:
  "fopen_a fs q = Some fs1 \<Longrightarrow> p \<noteq> q \<Longrightarrow> map_of (entries fs1) p = map_of (entries fs) p"
  by (auto simp: fopen_a_def map_add_def split: option.splits node.splits if_splits)

lemma fopen_a_space: "fopen_a fs q = Some fs1 \<Longrightarrow> space fs1 = space fs"
  by (auto simp: fopen_a_def split: option.splits node.splits if_splits)

lemma fwrite_a_space: "fwrite_a fs1 q rec = (n, fs2) \<Longrightarrow> space fs2 = space fs1 - length rec"
  by (auto simp: fwrite_a_def Let_def)

lemma fwrite_a_others:
  "fwrite_a fs1 q rec = (n, fs2) \<Longrightarrow> p \<noteq> q \<Longrightarrow> map_of (entries fs2) p = map_of (entries fs1) p"
  by (auto simp: fwrite_a_def Let_def map_of_map_entry)

lemma store_others:
  assumes "store fs name t v = (e, fs')" and "p \<noteq> c_str (makeFilename name t)"
  shows "map_of (entries fs') p = map_of (entries fs) p"
proof (cases "CHR ''/'' \<in> set name \<or> \<not> regexec_d_preg (c_str name)")
  case True
  with assms(1) show ?thesis by (auto simp: store_def split: if_splits)
next
  case False
  let ?q = "c_str (makeFilename name t)"
  show ?thesis
  proof (cases "fopen_a fs ?q")
    case None
    with False assms(1) show ?thesis by (auto simp: store_def Let_def)
  next
    case (Some fs1)
    obtain n fs2 where w: "fwrite_a fs1 ?q (bytes_of_Val \<lparr>v_timestamp = t, v_value = v\<rparr>) = (n, fs2)"
      by (cases "fwrite_a fs1 ?q (bytes_of_Val \<lparr>v_timestamp = t, v_value = v\<rparr>)")
    with False Some assms(1) have "fs' = fs2"
      by (auto simp: store_def Let_def split: if_splits)
    with fopen_a_others [OF Some assms(2)] fwrite_a_others [OF w assms(2)] show ?thesis by simp
  qed
qed

lemma store_opened:
  assumes "CHR ''/'' \<notin> set name" and "regexec_d_preg (c_str name)"
    and "store fs name t v = (None, fs')"
  shows "appendable fs (c_str (makeFilename name t))"
proof (cases "fopen_a fs (c_str (makeFilename name t))")
  case None
  with assms show ?thesis by (simp add: store_def Let_def)
next
  case (Some fs1)
  then show ?thesis using fopen_a_appendable by blast
qed

lemma store_space:
  assumes "store fs name t v = (e, fs')"
  shows "space fs - sizeof_Val \<le> space fs'"
proof (cases "CHR ''/'' \<in> set name \<or> \<not> regexec_d_preg (c_str name)")
  case True
  with assms show ?thesis by (auto simp: store_def split: if_splits)
next
  case False
  let ?q = "c_str (makeFilename name t)"
  show ?thesis
  proof (cases "fopen_a fs ?q")
    case None
    with False assms show ?thesis by (auto simp: store_def Let_def)
  next
    case (Some fs1)
    obtain n fs2 where w: "fwrite_a fs1 ?q (bytes_of_Val \<lparr>v_timestamp = t, v_value = v\<rparr>) = (n, fs2)"
      by (cases "fwrite_a fs1 ?q (bytes_of_Val \<lparr>v_timestamp = t, v_value = v\<rparr>)")
    with False Some assms have "fs' = fs2"
      by (auto simp: store_def Let_def split: if_splits)
    with fopen_a_space [OF Some] fwrite_a_space [OF w] show ?thesis
      by (simp add: length_bytes_of_Val)
  qed
qed

lemma shards_unchanged:
  assumes "regexec_d_preg name"
    and "\<forall>k<n_weeks. map_of (entries fs') (shard_name name k) = map_of (entries fs) (shard_name name k)"
  shows "shards_wf fs' name = shards_wf fs name" and "stored_vals fs' name = stored_vals fs name"
proof -
  have c: "c_str (shard_name name k) = shard_name name k" for k
    using assms(1) by (intro c_str_id) (simp add: shard_name_def regexec_no_NUL to_string_no_NUL)
  have fv: "file_vals fs' (shard_name name k) = file_vals fs (shard_name name k)" if "k < n_weeks" for k
    using assms(2) that by (simp add: file_vals_def c)
  have sw: "shard_whole fs' (shard_name name k) = shard_whole fs (shard_name name k)" if "k < n_weeks" for k
    using assms(2) that by (simp add: shard_whole_def)
  show "shards_wf fs' name = shards_wf fs name"
    by (auto simp: shards_wf_def fv sw)
  show "stored_vals fs' name = stored_vals fs name"
    unfolding stored_vals_def
    by (rule arg_cong [where f = concat], rule map_cong) (simp_all add: fv)
qed

lemma mset_concat_upt: "mset (concat (map F [0..<N])) = (\<Sum>k<N. mset (F k))"
  by (induction N) simp_all

text \<open>
  A \<^verbatim>\<open>store\<close> under the metric's own name that raises no error, on a device that takes
  the record, keeps its shards well-formed and adds the record to them; a \<^verbatim>\<open>store\<close>
  under another name leaves them as they are.
\<close>
lemma store_same_name:
  assumes name: "CHR ''/'' \<notin> set name" "regexec_d_preg name"
    and wf: "shards_wf fs name"
    and space: "sizeof_Val \<le> space fs"
    and st: "store fs name t v = (None, fs')"
  shows "shards_wf fs' name"
    and "mset (stored_vals fs' name) = mset (stored_vals fs name) + {#\<lparr>v_timestamp = t, v_value = v\<rparr>#}"
proof -
  let ?k0 = "unat (getWeekNum t)"
  let ?p = "makeFilename name t"
  let ?r = "\<lparr>v_timestamp = t, v_value = v\<rparr>"
  let ?F = "\<lambda>k. file_vals fs (shard_name name k)"
  let ?F' = "\<lambda>k. file_vals fs' (shard_name name k)"
  have k0: "?k0 < n_weeks" by (rule week_le_max)
  have p: "?p = shard_name name ?k0" by (rule makeFilename_shard)
  have c1: "c_str name = name" using name(2) by (simp add: c_str_id regexec_no_NUL)
  from wf k0 have whole: "shard_whole fs ?p" by (simp add: shards_wf_def p)
  from name st have app: "appendable fs ?p"
    using store_opened [of name fs t v fs'] by (simp add: c1 c_str_makeFilename)
  from store_valid [OF name space app whole, of v] st
  obtain old where old: "sizeof_Val dvd length old"
    and fv: "file_vals fs ?p = fread_vals (length old div sizeof_Val) old"
    and shard: "map_of (entries fs') ?p = Some (File (old @ bytes_of_Val ?r))"
    and others: "\<And>q. q \<noteq> ?p \<Longrightarrow> map_of (entries fs') q = map_of (entries fs) q"
    by auto
  have F0: "?F' ?k0 = ?F ?k0 @ [?r]"
    using shard fread_vals_last [OF old, of ?r] fv
    by (simp add: file_vals_def p [symmetric] c_str_makeFilename [OF name(2)])
  have Fk: "?F' k = ?F k" if "k \<noteq> ?k0" for k
  proof -
    from that have "shard_name name k \<noteq> ?p" using shard_name_inj [of name k name ?k0] by (auto simp: p)
    from others [OF this] show ?thesis
      by (simp add: file_vals_def c_str_shard_name [OF name(2)])
  qed
  have W0: "shard_whole fs' (shard_name name ?k0)"
    using shard old by (simp add: shard_whole_def p [symmetric] length_bytes_of_Val)
  have Wk: "shard_whole fs' (shard_name name k) = shard_whole fs (shard_name name k)" if "k \<noteq> ?k0" for k
  proof -
    from that have "shard_name name k \<noteq> ?p" using shard_name_inj [of name k name ?k0] by (auto simp: p)
    from others [OF this] show ?thesis by (simp add: shard_whole_def)
  qed
  show "shards_wf fs' name"
    unfolding shards_wf_def
  proof (intro allI impI conjI ballI)
    fix k assume k: "k < n_weeks"
    show "shard_whole fs' (shard_name name k)"
      using wf k W0 Wk [of k] by (cases "k = ?k0") (auto simp: shards_wf_def)
    fix x assume x: "x \<in> set (?F' k)"
    show "unat (getWeekNum (v_timestamp x)) = k"
    proof (cases "k = ?k0")
      case True
      with x F0 wf k show ?thesis by (auto simp: shards_wf_def)
    next
      case False
      with x Fk [of k] wf k show ?thesis by (auto simp: shards_wf_def)
    qed
  qed
  have "mset (?F' k) = mset (?F k) + (if k = ?k0 then {#?r#} else {#})" for k
    using F0 Fk [of k] by simp
  then have "(\<Sum>k<n_weeks. mset (?F' k)) =
      (\<Sum>k<n_weeks. mset (?F k)) + (\<Sum>k<n_weeks. if k = ?k0 then {#?r#} else {#})"
    by (simp add: sum.distrib)
  also have "(\<Sum>k<n_weeks. if k = ?k0 then {#?r#} else {#}) = {#?r#}"
    using k0 by (simp add: sum.delta)
  finally show "mset (stored_vals fs' name) = mset (stored_vals fs name) + {#?r#}"
    by (simp add: stored_vals_def mset_concat_upt)
qed

lemma store_other_name:
  assumes name: "regexec_d_preg name"
    and other: "CHR 0x00 \<notin> set name'" "name' \<noteq> name"
    and st: "store fs name' t v = (e, fs')"
  shows "shards_wf fs' name = shards_wf fs name" and "stored_vals fs' name = stored_vals fs name"
proof -
  have "c_str (makeFilename name' t) = makeFilename name' t"
    using other(1) by (intro c_str_id) (simp add: makeFilename_def to_string_no_NUL)
  then have "shard_name name k \<noteq> c_str (makeFilename name' t)" for k
    using shard_name_inj [of name k name' "unat (getWeekNum t)"] other(2)
    by (auto simp: makeFilename_shard)
  then have same: "\<forall>k<n_weeks. map_of (entries fs') (shard_name name k) = map_of (entries fs) (shard_name name k)"
    using store_others [OF st] by blast
  show "shards_wf fs' name = shards_wf fs name" and "stored_vals fs' name = stored_vals fs name"
    using shards_unchanged [OF name same] by simp_all
qed

lemma store_seq_stored:
  assumes name: "CHR ''/'' \<notin> set name" "regexec_d_preg name"
    and nul: "\<forall>w\<in>set ws. CHR 0x00 \<notin> set (fst w)"
    and wf: "shards_wf fs name"
    and space: "length ws * sizeof_Val \<le> space fs"
    and st: "store_seq fs ws = (None, fs')"
  shows "shards_wf fs' name \<and>
         mset (stored_vals fs' name) =
           mset (stored_vals fs name) + mset (map (Val_of_Datum \<circ> snd) (filter (\<lambda>w. fst w = name) ws))"
  using nul wf space st
proof (induction ws arbitrary: fs)
  case Nil
  then show ?case by simp
next
  case (Cons w ws)
  obtain n d where w: "w = (n, d)" by (cases w)
  obtain e fs1 where s1: "store fs n (d_timestamp d) (d_value d) = (e, fs1)"
    by (cases "store fs n (d_timestamp d) (d_value d)")
  with Cons.prems(4) w have e: "e = None" and rest: "store_seq fs1 ws = (None, fs')"
    by (cases e; simp)+
  from Cons.prems(1) have nul': "\<forall>w\<in>set ws. CHR 0x00 \<notin> set (fst w)" and n0: "CHR 0x00 \<notin> set n"
    by (simp_all add: w)
  from Cons.prems(3) have sp: "sizeof_Val \<le> space fs" and "length ws * sizeof_Val \<le> space fs - sizeof_Val"
    by simp_all
  with store_space [OF s1] have sp1: "length ws * sizeof_Val \<le> space fs1" by linarith
  show ?case
  proof (cases "n = name")
    case True
    from store_same_name [OF name Cons.prems(2) sp, of "d_timestamp d" "d_value d" fs1] s1 e True
    have wf1: "shards_wf fs1 name"
      and m1: "mset (stored_vals fs1 name) = mset (stored_vals fs name) + {#Val_of_Datum d#}"
      by (simp_all add: Val_of_Datum_def)
    from Cons.IH [OF nul' wf1 sp1 rest] m1 True w show ?thesis by simp
  next
    case False
    from store_other_name [OF name(2) n0 False s1] Cons.prems(2)
    have wf1: "shards_wf fs1 name" and m1: "stored_vals fs1 name = stored_vals fs name"
      by simp_all
    from Cons.IH [OF nul' wf1 sp1 rest] m1 False w show ?thesis by simp
  qed
qed

lemma shards_wf_readable:
  assumes "regexec_d_preg name" and "length name + 5 \<le> name_max" and "shards_wf fs name"
  shows "\<forall>k<n_weeks. readable fs (shard_name name k)"
    and "\<forall>k<n_weeks. \<forall>v\<in>set (file_vals fs (shard_name name k)). unat (getWeekNum (v_timestamp v)) = k"
proof -
  have "length (shard_name name k) \<le> name_max" if "k < n_weeks" for k
    using length_shard_name [OF that, of name] assms(2) by linarith
  with assms(1,3) show "\<forall>k<n_weeks. readable fs (shard_name name k)"
    by (auto simp: shards_wf_def shard_whole_def readable_def c_str_shard_name
        split: option.splits node.splits)
  from assms(3)
  show "\<forall>k<n_weeks. \<forall>v\<in>set (file_vals fs (shard_name name k)). unat (getWeekNum (v_timestamp v)) = k"
    by (simp add: shards_wf_def)
qed

lemma stores_then_retrieve_range:
  assumes name: "CHR ''/'' \<notin> set name" "regexec_d_preg name"
    and len: "length name + 5 \<le> name_max"
    and srt: "sorts std_sort"
    and bounds: "0 \<le> sint begin" "sint begin \<le> sint end" "sint end + 2 * 604800 \<le> 2 ^ 32"
    and nul: "\<forall>w\<in>set ws. CHR 0x00 \<notin> set (fst w)"
    and wf: "shards_wf fs name"
    and space: "length ws * sizeof_Val \<le> space fs"
    and st: "store_seq fs ws = (None, fs')"
  shows "\<exists>rs. retrieve_range std_sort fs' name begin end number = Some (Inr rs) \<and>
           mset rs = image_mset Datum_of_Val (filter_mset (in_range begin end)
                       (mset (stored_vals fs name) +
                        mset (map (Val_of_Datum \<circ> snd) (filter (\<lambda>w. fst w = name) ws))))"
proof -
  from store_seq_stored [OF name nul wf space st]
  have wf': "shards_wf fs' name"
    and m: "mset (stored_vals fs' name) =
              mset (stored_vals fs name) + mset (map (Val_of_Datum \<circ> snd) (filter (\<lambda>w. fst w = name) ws))"
    by simp_all
  from retrieve_range_exact [OF name(1) srt bounds shards_wf_readable [OF name(2) len wf'], of number]
  show ?thesis unfolding m .
qed

lemma shards_wf_empty: "shards_wf \<lparr>dir_ok = ok, entries = [], space = sp\<rparr> name"
  by (simp add: shards_wf_def shard_whole_def file_vals_def)

lemma stored_vals_empty: "stored_vals \<lparr>dir_ok = ok, entries = [], space = sp\<rparr> name = []"
  by (simp add: stored_vals_def file_vals_def)

lemma Datum_of_Val_of_Datum: "Datum_of_Val (Val_of_Datum d) = d"
  by (simp add: Datum_of_Val_def Val_of_Datum_def)

lemma in_range_Val_of_Datum:
  "in_range begin end (Val_of_Datum d) \<longleftrightarrow>
     sint begin \<le> uint (d_timestamp d) \<and> uint (d_timestamp d) < sint end"
  by (simp add: in_range_def Val_of_Datum_def)

text \<open>
  From the empty directory: after any sequence of \<^verbatim>\<open>store\<close> calls that raise no error,
  under any names and in any order, on a device that takes all the records, the ranged
  \<^verbatim>\<open>retrieve\<close> returns exactly the samples written under the name with
  \<open>begin \<le> t < end\<close>, for \<open>0 \<le> begin \<le> end\<close> and \<open>end + 2 * 604800 \<le> 2\<^sup>3\<^sup>2\<close> and a name
  whose shard names are not too long.
\<close>
theorem written_then_retrieve_range:
  assumes name: "CHR ''/'' \<notin> set name" "regexec_d_preg name"
    and len: "length name + 5 \<le> name_max"
    and srt: "sorts std_sort"
    and bounds: "0 \<le> sint begin" "sint begin \<le> sint end" "sint end + 2 * 604800 \<le> 2 ^ 32"
    and nul: "\<forall>w\<in>set ws. CHR 0x00 \<notin> set (fst w)"
    and space: "length ws * sizeof_Val \<le> sp"
    and st: "store_seq \<lparr>dir_ok = ok, entries = [], space = sp\<rparr> ws = (None, fs')"
  shows "\<exists>rs. retrieve_range std_sort fs' name begin end number = Some (Inr rs) \<and>
           mset rs = filter_mset (\<lambda>d. sint begin \<le> uint (d_timestamp d) \<and> uint (d_timestamp d) < sint end)
                       (mset (map snd (filter (\<lambda>w. fst w = name) ws)))"
proof -
  have sp: "length ws * sizeof_Val \<le> space \<lparr>dir_ok = ok, entries = [], space = sp\<rparr>"
    using space by simp
  from stores_then_retrieve_range [OF name len srt bounds nul shards_wf_empty sp st, of number]
  obtain rs where r: "retrieve_range std_sort fs' name begin end number = Some (Inr rs)"
    and m: "mset rs = image_mset Datum_of_Val (filter_mset (in_range begin end)
              (mset (map (Val_of_Datum \<circ> snd) (filter (\<lambda>w. fst w = name) ws))))"
    by (auto simp: stored_vals_empty)
  have "image_mset Datum_of_Val (filter_mset (in_range begin end) (mset (map (Val_of_Datum \<circ> snd) xs)))
      = filter_mset (\<lambda>d. sint begin \<le> uint (d_timestamp d) \<and> uint (d_timestamp d) < sint end)
          (mset (map snd xs))" for xs :: "(string \<times> Datum) list"
    by (induction xs) (simp_all add: in_range_Val_of_Datum Datum_of_Val_of_Datum)
  from m this [of "filter (\<lambda>w. fst w = name) ws"]
  have "mset rs = filter_mset (\<lambda>d. sint begin \<le> uint (d_timestamp d) \<and> uint (d_timestamp d) < sint end)
                       (mset (map snd (filter (\<lambda>w. fst w = name) ws)))"
    by (rule trans)
  with r show ?thesis by blast
qed

text \<open>
  Two samples of one metric in adjacent weeks, written out of order with a sample of
  another metric in between, and a range that straddles the week boundary.
\<close>
lemma written_then_retrieve_range_example:
  "\<exists>rs. retrieve_range (sort_key v_timestamp)
       \<lparr>dir_ok = True,
          entries = [(''temp.1'', File [128, 58, 9, 0, 0, 0, 0, 64]), (''mem.0'', File [7, 0, 0, 0, 0, 0, 0, 0]),
                     (''temp.0'', File [0, 0, 0, 0, 0, 0, 128, 63])],
          space = 40\<rparr>
       ''temp'' 0 604801 10 = Some (Inr rs) \<and>
     mset rs = {#\<lparr>d_timestamp = 604800, d_value = 0x40000000\<rparr>, \<lparr>d_timestamp = 0, d_value = 0x3F800000\<rparr>#}"
proof -
  let ?ws = "[(''temp'', \<lparr>d_timestamp = 604800, d_value = 0x40000000\<rparr>),
              (''mem'', \<lparr>d_timestamp = 7, d_value = 0\<rparr>),
              (''temp'', \<lparr>d_timestamp = 0, d_value = 0x3F800000\<rparr>)]"
  let ?fs' = "\<lparr>dir_ok = True,
          entries = [(''temp.1'', File [128, 58, 9, 0, 0, 0, 0, 64]), (''mem.0'', File [7, 0, 0, 0, 0, 0, 0, 0]),
                     (''temp.0'', File [0, 0, 0, 0, 0, 0, 128, 63])],
          space = 40\<rparr>"
  have h1: "CHR ''/'' \<notin> set ''temp''" by simp
  have h2: "regexec_d_preg ''temp''" by code_simp
  have h3: "sorts (sort_key v_timestamp)" by (simp add: sorts_def is_sorted_iff)
  have h4: "0 \<le> sint (0 :: int64)" "sint (0 :: int64) \<le> sint (604801 :: int64)"
    "sint (604801 :: int64) + 2 * 604800 \<le> 2 ^ 32" by simp_all
  have h5: "\<forall>w\<in>set ?ws. CHR 0x00 \<notin> set (fst w)" by simp
  have h6: "store_seq \<lparr>dir_ok = True, entries = [], space = 64\<rparr> ?ws = (None, ?fs')" by code_simp
  have h7: "length ''temp'' + 5 \<le> name_max" by (simp add: name_max_def)
  have h8: "length ?ws * sizeof_Val \<le> 64" by (simp add: sizeof_Val_def)
  from written_then_retrieve_range [OF h1 h2 h7 h3 h4 h5 h8 h6, of 10]
  show ?thesis by simp
qed

text \<open>
  Claim C1: the ranged \<^verbatim>\<open>retrieve\<close> returns exactly the stored records with
  \<open>begin \<le> t < end\<close>, for all bounds. After \<^verbatim>\<open>store("cpu", 604800, 1.0f)\<close> into the empty
  directory, the query with \<open>begin = 0\<close> and \<open>end = 4294967295\<close> returns the empty sequence,
  though the record lies inside the interval; the same query with \<open>end = 1209600\<close> returns
  it. The wrapped loop bound of claim C5 is the cause: only the shard of week 0 is read.
\<close>
theorem retrieve_range_overflow_misses_record:
  "store \<lparr>dir_ok = True, entries = [], space = 64\<rparr> ''cpu'' 604800 0x3F800000 =
     (None, \<lparr>dir_ok = True, entries = [(''cpu.1'', File [128, 58, 9, 0, 0, 0, 128, 63])], space = 56\<rparr>) \<and>
   retrieve_range (sort_key v_timestamp)
     \<lparr>dir_ok = True, entries = [(''cpu.1'', File [128, 58, 9, 0, 0, 0, 128, 63])], space = 56\<rparr>
     ''cpu'' 0 4294967295 10 = Some (Inr []) \<and>
   retrieve_range (sort_key v_timestamp)
     \<lparr>dir_ok = True, entries = [(''cpu.1'', File [128, 58, 9, 0, 0, 0, 128, 63])], space = 56\<rparr>
     ''cpu'' 0 1209600 10 = Some (Inr [\<lparr>d_timestamp = 604800, d_value = 0x3F800000\<rparr>])"
  by code_simp

end
